theory Spec2Isabelle
  imports Main
begin

section \<open>JavaScript values\<close>

text \<open>
  Event payloads, closures and custom data are untyped in the source (\<open>any\<close>). The
  model keeps the part of a JavaScript value the code looks at: whether it is
  \<open>undefined\<close> or \<open>null\<close>, its truthiness (for \<open>||\<close>), string equality (for
  \<open>Array.includes\<close>) and the own properties of an object. Numbers are integers here.
\<close>

datatype jsval =
    JUndefined
  | JNull
  | JBool bool
  | JNum int
  | JStr string
  | JObj "(string \<times> jsval) list"

text \<open>What a listener or a callback can throw.\<close>

datatype exn = TypeError | SyntaxError | Unsupported | Thrown jsval

datatype completion = Normal | Throw exn

fun truthy :: "jsval \<Rightarrow> bool" where
  "truthy JUndefined = False"
| "truthy JNull = False"
| "truthy (JBool b) = b"
| "truthy (JNum n) = (n \<noteq> 0)"
| "truthy (JStr s) = (s \<noteq> [])"
| "truthy (JObj kvs) = True"

fun nullish :: "jsval \<Rightarrow> bool" where
  "nullish JUndefined = True"
| "nullish JNull = True"
| "nullish v = False"

text \<open>
  \<open>own_property v k\<close> is \<open>v[k]\<close> for a value that is neither \<open>null\<close> nor \<open>undefined\<close>.
  The code reads the names \<open>value\<close>, \<open>event\<close> and \<open>data\<close> only; booleans, numbers and
  strings have no property of these names, so the read gives \<open>undefined\<close> there.
\<close>

fun own_property :: "jsval \<Rightarrow> string \<Rightarrow> jsval" where
  "own_property (JObj kvs) k = (case map_of kvs k of None \<Rightarrow> JUndefined | Some v \<Rightarrow> v)"
| "own_property v k = JUndefined"

text \<open>\<open>v.k\<close>: a TypeError on \<open>null\<close> and \<open>undefined\<close>.\<close>

definition member :: "jsval \<Rightarrow> string \<Rightarrow> exn + jsval" where
  "member v k = (if nullish v then Inl TypeError else Inr (own_property v k))"

text \<open>\<open>v?.k\<close>: \<open>undefined\<close> on \<open>null\<close> and \<open>undefined\<close>.\<close>

definition optional_member :: "jsval \<Rightarrow> string \<Rightarrow> jsval" where
  "optional_member v k = (if nullish v then JUndefined else own_property v k)"

text \<open>
  \<open>xs.includes(v)\<close> for an array of strings: SameValueZero makes a value equal to a
  string only when it is that string.
\<close>

fun array_includes :: "string list \<Rightarrow> jsval \<Rightarrow> bool" where
  "array_includes xs (JStr s) = (s \<in> set xs)"
| "array_includes xs v = False"

section \<open>Topic matching\<close>

text \<open>
  \<open>subscribe\<close> builds the filter of a subscription from its topic. A topic without
  \<open>*\<close> is compared with \<open>===\<close>. A topic with \<open>*\<close> becomes
  \<open>new RegExp(topic.replace(/\<^verbatim>\<open>\\<close>*/g, '.*'), 'i')\<close>, and the filter is \<open>regex.test\<close>.

  The regular expressions modelled are the ones this construction yields from topics
  made of the characters of \<open>pattern_characters\<close>, of \<open>.\<close> and of \<open>*\<close>: a sequence of
  atoms (a literal character, or \<open>.\<close>), each taken once or under \<open>*\<close>. Any other
  character in the source of the expression gives \<open>Unsupported\<close>: the model says
  nothing about such topics. Characters are 8-bit; the line terminators among them
  are line feed and carriage return.
\<close>

datatype atom = Literal char | Dot

datatype regex_term = Once atom | Star atom

definition pattern_characters :: "char list" where
  "pattern_characters =
     ''ABCDEFGHIJKLMNOPQRSTUVWXYZabcdefghijklmnopqrstuvwxyz0123456789_-:/#@!%&=,;<>~ ''"

text \<open>\<open>topic.replace(/\<^verbatim>\<open>\\<close>*/g, '.*')\<close>\<close>

definition replace_stars :: "string \<Rightarrow> string" where
  "replace_stars t = concat (map (\<lambda>c. if c = CHR ''*'' then ''.*'' else [c]) t)"

text \<open>
  Parsing the source of the expression. A \<open>*\<close> with no atom before it is the
  SyntaxError "nothing to repeat".
\<close>

definition parse_atom :: "char \<Rightarrow> exn + atom" where
  "parse_atom c =
     (if c = CHR ''.'' then Inr Dot
      else if c = CHR ''*'' then Inl SyntaxError
      else if c \<in> set pattern_characters then Inr (Literal c)
      else Inl Unsupported)"

fun parse_regex :: "string \<Rightarrow> exn + regex_term list" where
  "parse_regex [] = Inr []"
| "parse_regex [c] = (case parse_atom c of Inl e \<Rightarrow> Inl e | Inr a \<Rightarrow> Inr [Once a])"
| "parse_regex (c # d # cs) =
     (case parse_atom c of
        Inl e \<Rightarrow> Inl e
      | Inr a \<Rightarrow>
          if d = CHR ''*''
          then (case parse_regex cs of Inl e \<Rightarrow> Inl e | Inr r \<Rightarrow> Inr (Star a # r))
          else (case parse_regex (d # cs) of Inl e \<Rightarrow> Inl e | Inr r \<Rightarrow> Inr (Once a # r)))"

text \<open>
  The flag \<open>i\<close>: two characters match when their canonical forms (upper case) are
  equal. Pattern characters are ASCII, and no character outside ASCII has an ASCII
  canonical form, so only the ASCII letters need a mapping.
\<close>

definition canonicalize :: "char \<Rightarrow> char" where
  "canonicalize c =
     (case map_of (zip ''abcdefghijklmnopqrstuvwxyz'' ''ABCDEFGHIJKLMNOPQRSTUVWXYZ'') c of
        None \<Rightarrow> c
      | Some u \<Rightarrow> u)"

definition line_terminator :: "char \<Rightarrow> bool" where
  "line_terminator c = (c = CHR 0x0A \<or> c = CHR 0x0D)"

fun atom_matches :: "atom \<Rightarrow> char \<Rightarrow> bool" where
  "atom_matches (Literal p) c = (canonicalize c = canonicalize p)"
| "atom_matches Dot c = (\<not> line_terminator c)"

text \<open>
  \<open>match_here r s\<close>: the expression matches a prefix of \<open>s\<close>. Backtracking tries
  every number of repetitions of a starred atom, so the result is the disjunction.
\<close>

fun match_here :: "regex_term list \<Rightarrow> string \<Rightarrow> bool" where
  "match_here [] s = True"
| "match_here (Once a # r) [] = False"
| "match_here (Once a # r) (c # cs) = (atom_matches a c \<and> match_here r cs)"
| "match_here (Star a # r) [] = match_here r []"
| "match_here (Star a # r) (c # cs) =
     (match_here r (c # cs) \<or> (atom_matches a c \<and> match_here (Star a # r) cs))"

text \<open>\<open>regex.test(s)\<close>: the expression is not anchored, a match may start anywhere.\<close>

fun regex_test :: "regex_term list \<Rightarrow> string \<Rightarrow> bool" where
  "regex_test r [] = match_here r []"
| "regex_test r (c # cs) = (match_here r (c # cs) \<or> regex_test r cs)"

text \<open>The filter of a subscription (the predicate given to \<open>filter\<close>).\<close>

datatype topic_filter = Exact string | Wildcard "regex_term list"

fun passes :: "topic_filter \<Rightarrow> string \<Rightarrow> bool" where
  "passes (Exact p) t = (t = p)"
| "passes (Wildcard r) t = regex_test r t"

definition make_filter :: "string \<Rightarrow> exn + topic_filter" where
  "make_filter t =
     (if CHR ''*'' \<in> set t
      then (case parse_regex (replace_stars t) of Inl e \<Rightarrow> Inl e | Inr r \<Rightarrow> Inr (Wildcard r))
      else Inr (Exact t))"

section \<open>Events, listeners and subscriptions\<close>

record event =
  topic :: string
  data :: jsval
  timestamp :: nat
  metadata :: jsval

text \<open>
  A listener is code of the caller. Its model is what it does when it is called with
  \<open>(subscriptionId, topic, data, closure, customData)\<close>: the calls it makes back into
  the bus, in order, and whether it then returns or throws.  A listener can call
  \<open>unsubscribe\<close> and \<open>unsubscribeAll\<close> from inside a delivery (the workflow listener
  below does); listeners that subscribe or publish from inside a delivery are not
  modelled.

  The listener that \<open>WorkflowAPI.execute\<close> registers is the second constructor: it keeps
  the address of its \<open>WorkflowAPI\<close> object (\<open>this\<close>), the two lists of states and the
  three optional callbacks. A callback is modelled by whether it returns or throws
  on its arguments.
\<close>

datatype bus_call = CallUnsubscribe string | CallUnsubscribeAll

datatype listener =
    UserListener "string \<Rightarrow> string \<Rightarrow> jsval \<Rightarrow> jsval \<Rightarrow> jsval \<Rightarrow> bus_call list \<times> completion"
  | StateChangeListener nat "string list" "string list"
      "(jsval \<Rightarrow> completion) option" "(jsval \<Rightarrow> completion) option"
      "(jsval \<Rightarrow> jsval \<Rightarrow> completion) option"

text \<open>
  An entry of \<open>subscriptions: Map<string, Subscription>\<close>: the id, and what the
  subscription's closure holds (the topic and its filter, the listener, \<open>closure\<close>
  and \<open>customData\<close>).
\<close>

record subscription =
  sub_id :: string
  sub_topic :: string
  sub_filter :: topic_filter
  sub_listener :: listener
  closure :: jsval
  customData :: jsval

text \<open>
  The bus. \<open>subscriptions\<close> is a list in insertion order: a JavaScript \<open>Map\<close> iterates in
  insertion order, and the subject keeps its observers in the order they subscribed;
  \<open>subscribe\<close> adds to both and \<open>unsubscribe\<close> removes from both, so one list stands for
  the two. Console output is not modelled, so \<open>debug\<close> has no effect here. The model
  covers a bus from its construction to \<open>destroy()\<close>; \<open>request\<close> is not modelled.
\<close>

record EventBus =
  subscriptions :: "subscription list"
  debug :: bool
  eventHistory :: "event list"
  maxHistorySize :: nat

record EventBusOptions =
  opt_debug :: "bool option"
  opt_maxHistorySize :: "nat option"

text \<open>
  The constructor: \<open>options?.debug || false\<close>, \<open>options?.maxHistorySize || 100\<close>. The
  number \<open>0\<close> is falsy, so it gives the default as a missing option does.
\<close>

definition new_EventBus :: "EventBusOptions option \<Rightarrow> EventBus" where
  "new_EventBus options =
     \<lparr>subscriptions = [],
      debug = (case options of None \<Rightarrow> False
               | Some opts \<Rightarrow> (case opt_debug opts of None \<Rightarrow> False | Some b \<Rightarrow> b)),
      eventHistory = [],
      maxHistorySize = (case options of None \<Rightarrow> 100
               | Some opts \<Rightarrow> (case opt_maxHistorySize opts of None \<Rightarrow> 100
                              | Some n \<Rightarrow> if n = 0 then 100 else n))\<rparr>"

definition getActiveSubscriptions :: "EventBus \<Rightarrow> string list" where
  "getActiveSubscriptions b = map sub_id (subscriptions b)"

text \<open>
  \<open>subscribe\<close>: an id already present returns at once (after a warning); otherwise the
  filter is built (\<open>new RegExp\<close> can throw) and the subscription is added last.
\<close>

definition subscribe ::
  "string \<Rightarrow> string \<Rightarrow> listener \<Rightarrow> jsval \<Rightarrow> jsval \<Rightarrow> EventBus \<Rightarrow> exn + EventBus" where
  "subscribe subscriptionId t l c d b =
     (if subscriptionId \<in> set (getActiveSubscriptions b) then Inr b
      else (case make_filter t of
              Inl e \<Rightarrow> Inl e
            | Inr f \<Rightarrow>
                Inr (b\<lparr>subscriptions := subscriptions b @
                      [\<lparr>sub_id = subscriptionId, sub_topic = t, sub_filter = f,
                        sub_listener = l, closure = c, customData = d\<rparr>]\<rparr>)))"

definition unsubscribe :: "string \<Rightarrow> EventBus \<Rightarrow> EventBus" where
  "unsubscribe subscriptionId b =
     (if subscriptionId \<in> set (getActiveSubscriptions b)
      then b\<lparr>subscriptions := filter (\<lambda>s. sub_id s \<noteq> subscriptionId) (subscriptions b)\<rparr>
      else b)"

definition unsubscribeAll :: "EventBus \<Rightarrow> EventBus" where
  "unsubscribeAll b = b\<lparr>subscriptions := []\<rparr>"

text \<open>\<open>addToHistory\<close>: push, then one \<open>shift\<close> when the length exceeds the maximum.\<close>

definition addToHistory :: "event \<Rightarrow> EventBus \<Rightarrow> EventBus" where
  "addToHistory ev b =
     (let pushed = eventHistory b @ [ev]
      in if length pushed > maxHistorySize b then b\<lparr>eventHistory := tl pushed\<rparr>
         else b\<lparr>eventHistory := pushed\<rparr>)"

text \<open>\<open>getHistory(topic?)\<close>: \<open>if (topic)\<close> is false for a missing and for an empty topic.\<close>

definition getHistory :: "string option \<Rightarrow> EventBus \<Rightarrow> event list" where
  "getHistory t b =
     (case t of
        None \<Rightarrow> eventHistory b
      | Some x \<Rightarrow> if x = [] then eventHistory b
                  else filter (\<lambda>ev. topic ev = x) (eventHistory b))"

definition clearHistory :: "EventBus \<Rightarrow> EventBus" where
  "clearHistory b = b\<lparr>eventHistory := []\<rparr>"

section \<open>The world: the bus, the workflow objects and what was called\<close>

record WorkflowAPI =
  workflowName :: string
  subscriptionId :: "string option"

text \<open>
  \<open>calls\<close> records every call of a listener and of a workflow callback, in order, with
  its arguments; a callback's record starts with the subscription id its listener
  was called with. \<open>unhandled\<close> holds what listeners threw (see \<open>observer_next\<close>).
\<close>

datatype call =
    ListenerCall string string jsval jsval jsval
  | SuccessCall string jsval
  | ErrorCall string jsval
  | ProgressCall string jsval jsval

record world =
  bus :: EventBus
  apis :: "nat \<Rightarrow> WorkflowAPI"
  calls :: "call list"
  unhandled :: "exn list"

definition new_world :: "EventBusOptions option \<Rightarrow> world" where
  "new_world options =
     \<lparr>bus = new_EventBus options,
      apis = (\<lambda>a. \<lparr>workflowName = [], subscriptionId = None\<rparr>),
      calls = [], unhandled = []\<rparr>"

fun run_bus_calls :: "bus_call list \<Rightarrow> EventBus \<Rightarrow> EventBus" where
  "run_bus_calls [] b = b"
| "run_bus_calls (CallUnsubscribe i # cs) b = run_bus_calls cs (unsubscribe i b)"
| "run_bus_calls (CallUnsubscribeAll # cs) b = run_bus_calls cs (unsubscribeAll b)"

text \<open>
  \<open>WorkflowAPI.cleanup\<close>: \<open>if (this.subscriptionId)\<close> is false for \<open>null\<close> and for the
  empty string.
\<close>

definition cleanup :: "nat \<Rightarrow> world \<Rightarrow> world" where
  "cleanup a w =
     (case subscriptionId (apis w a) of
        None \<Rightarrow> w
      | Some i \<Rightarrow>
          if i = [] then w
          else w\<lparr>bus := unsubscribe i (bus w),
                 apis := (apis w)(a := (apis w a)\<lparr>subscriptionId := None\<rparr>)\<rparr>)"

definition cancel :: "nat \<Rightarrow> world \<Rightarrow> world" where
  "cancel a w = cleanup a w"

text \<open>\<open>onSuccess?.(x)\<close>, \<open>onError?.(x)\<close>, \<open>onProgress?.(state, x)\<close>\<close>

definition call_onSuccess ::
  "(jsval \<Rightarrow> completion) option \<Rightarrow> string \<Rightarrow> jsval \<Rightarrow> world \<Rightarrow> world \<times> completion" where
  "call_onSuccess cb i x w =
     (case cb of None \<Rightarrow> (w, Normal)
      | Some f \<Rightarrow> (w\<lparr>calls := calls w @ [SuccessCall i x]\<rparr>, f x))"

definition call_onError ::
  "(jsval \<Rightarrow> completion) option \<Rightarrow> string \<Rightarrow> jsval \<Rightarrow> world \<Rightarrow> world \<times> completion" where
  "call_onError cb i x w =
     (case cb of None \<Rightarrow> (w, Normal)
      | Some f \<Rightarrow> (w\<lparr>calls := calls w @ [ErrorCall i x]\<rparr>, f x))"

definition call_onProgress ::
  "(jsval \<Rightarrow> jsval \<Rightarrow> completion) option \<Rightarrow> string \<Rightarrow> jsval \<Rightarrow> jsval \<Rightarrow> world
     \<Rightarrow> world \<times> completion" where
  "call_onProgress cb i st x w =
     (case cb of None \<Rightarrow> (w, Normal)
      | Some f \<Rightarrow> (w\<lparr>calls := calls w @ [ProgressCall i st x]\<rparr>, f st x))"

text \<open>
  The listener of \<open>WorkflowAPI.execute\<close>. An optional call with no callback does not
  evaluate its argument. A callback that throws ends the listener before \<open>cleanup\<close>.
\<close>

definition state_change_listener ::
  "nat \<Rightarrow> string list \<Rightarrow> string list \<Rightarrow> (jsval \<Rightarrow> completion) option
     \<Rightarrow> (jsval \<Rightarrow> completion) option \<Rightarrow> (jsval \<Rightarrow> jsval \<Rightarrow> completion) option
     \<Rightarrow> string \<Rightarrow> jsval \<Rightarrow> world \<Rightarrow> world \<times> completion" where
  "state_change_listener a successStates errorStates onSuccess onError onProgress i eventData w =
     (let state = optional_member eventData ''value'' in
      if array_includes successStates state then
        (case (if onSuccess = None then Inr JUndefined
               else (case member eventData ''event'' of
                       Inl e \<Rightarrow> Inl e
                     | Inr ev \<Rightarrow> Inr (optional_member ev ''data''))) of
           Inl e \<Rightarrow> (w, Throw e)
         | Inr x \<Rightarrow>
             (case call_onSuccess onSuccess i x w of
                (w', Throw e) \<Rightarrow> (w', Throw e)
              | (w', Normal) \<Rightarrow> (cleanup a w', Normal)))
      else if array_includes errorStates state then
        (case (if onError = None then Inr JUndefined
               else (case member eventData ''event'' of
                       Inl e \<Rightarrow> Inl e
                     | Inr ev \<Rightarrow>
                         (let d = optional_member ev ''data''
                          in Inr (if truthy d then d else eventData)))) of
           Inl e \<Rightarrow> (w, Throw e)
         | Inr x \<Rightarrow>
             (case call_onError onError i x w of
                (w', Throw e) \<Rightarrow> (w', Throw e)
              | (w', Normal) \<Rightarrow> (cleanup a w', Normal)))
      else call_onProgress onProgress i state eventData w)"

fun invoke ::
  "listener \<Rightarrow> string \<Rightarrow> string \<Rightarrow> jsval \<Rightarrow> jsval \<Rightarrow> jsval \<Rightarrow> world \<Rightarrow> world \<times> completion" where
  "invoke (UserListener f) i t x c d w =
     (case f i t x c d of (cs, r) \<Rightarrow> (w\<lparr>bus := run_bus_calls cs (bus w)\<rparr>, r))"
| "invoke (StateChangeListener a successStates errorStates onSuccess onError onProgress) i t x c d w =
     state_change_listener a successStates errorStates onSuccess onError onProgress i x w"

section \<open>Delivery\<close>

text \<open>
  \<open>send\<close> hands the event to the RxJS \<open>Subject\<close> (\<open>this.subject.next(event)\<close>), which is
  not code of this repository. What the model takes from RxJS 7:
  \<^item> \<open>Subject.next\<close> goes through a copy of the observer list made when it starts, in
    subscription order;
  \<^item> a subscriber that has been unsubscribed ignores \<open>next\<close>, so a subscription removed
    by an earlier listener of the same delivery is passed over;
  \<^item> an error thrown by the function given to \<open>subscribe\<close> is caught by the
    subscriber and reported later from a timer (\<open>reportUnhandledError\<close>); it does not
    reach \<open>Subject.next\<close> or its caller. Here it is added to \<open>unhandled\<close>.
  Listeners cannot subscribe during a delivery in this model, so a subscription of
  the copy has been unsubscribed exactly when its id has left the registry.
\<close>

definition observer_next :: "subscription \<Rightarrow> event \<Rightarrow> world \<Rightarrow> world" where
  "observer_next s ev w =
     (if sub_id s \<in> set (getActiveSubscriptions (bus w)) \<and> passes (sub_filter s) (topic ev)
      then (case invoke (sub_listener s) (sub_id s) (topic ev) (data ev) (closure s) (customData s)
                   (w\<lparr>calls := calls w @
                        [ListenerCall (sub_id s) (topic ev) (data ev) (closure s) (customData s)]\<rparr>) of
              (w', Normal) \<Rightarrow> w'
            | (w', Throw e) \<Rightarrow> w'\<lparr>unhandled := unhandled w' @ [e]\<rparr>)
      else w)"

fun subject_next :: "subscription list \<Rightarrow> event \<Rightarrow> world \<Rightarrow> world" where
  "subject_next [] ev w = w"
| "subject_next (s # ss) ev w = subject_next ss ev (observer_next s ev w)"

text \<open>\<open>send(topic, data, metadata?)\<close>; \<open>now\<close> is what \<open>Date.now()\<close> returns.\<close>

definition send :: "string \<Rightarrow> jsval \<Rightarrow> jsval \<Rightarrow> nat \<Rightarrow> world \<Rightarrow> world" where
  "send t x md now w =
     (let ev = \<lparr>topic = t, data = x, timestamp = now, metadata = md\<rparr>;
          w1 = w\<lparr>bus := addToHistory ev (bus w)\<rparr>
      in subject_next (subscriptions (bus w1)) ev w1)"

section \<open>The workflow protocol\<close>

record WorkflowConfig =
  successStates :: "string list option"
  errorStates :: "string list option"

record WorkflowCallbacks =
  onSuccess :: "(jsval \<Rightarrow> completion) option"
  onError :: "(jsval \<Rightarrow> completion) option"
  onProgress :: "(jsval \<Rightarrow> jsval \<Rightarrow> completion) option"

text \<open>
  Of \<open>WorkflowConfig\<close> the code reads \<open>successStates\<close> and \<open>errorStates\<close> only. A
  missing configuration, or a missing field, gives the default list.
\<close>

definition configured_successStates :: "WorkflowConfig option \<Rightarrow> string list" where
  "configured_successStates config =
     (case config of None \<Rightarrow> [''success'']
      | Some c \<Rightarrow> (case successStates c of None \<Rightarrow> [''success''] | Some xs \<Rightarrow> xs))"

definition configured_errorStates :: "WorkflowConfig option \<Rightarrow> string list" where
  "configured_errorStates config =
     (case config of None \<Rightarrow> [''error'', ''failure'']
      | Some c \<Rightarrow> (case errorStates c of None \<Rightarrow> [''error'', ''failure''] | Some xs \<Rightarrow> xs))"

text \<open>A number in a template string: its decimal digits.\<close>

fun decimal :: "nat \<Rightarrow> string" where
  "decimal n =
     (if n < 10 then [''0123456789'' ! n]
      else decimal (n div 10) @ [''0123456789'' ! (n mod 10)])"

declare decimal.simps [simp del]

text \<open>
  The registration id: \<open>now\<close> is \<open>Date.now()\<close> and \<open>random\<close> is
  \<open>Math.random().toString(36).substr(2, 9)\<close>.
\<close>

definition registration_id :: "string \<Rightarrow> nat \<Rightarrow> string \<Rightarrow> string" where
  "registration_id name now random = name @ ''.'' @ decimal now @ ''.'' @ random"

definition state_change_topic :: "string \<Rightarrow> string" where
  "state_change_topic name = ''WF.'' @ name @ ''.STATE.CHANGE''"

definition workflow_header :: "string \<Rightarrow> string \<Rightarrow> string \<Rightarrow> jsval" where
  "workflow_header registrationId name eventType =
     JObj [(''registrationId'', JStr registrationId), (''workflow'', JStr name),
           (''eventType'', JStr eventType)]"

text \<open>
  \<open>new WorkflowAPI(eventBus, workflowName)\<close> at the address \<open>a\<close>. Every workflow object
  of a world is built on the world's bus.
\<close>

definition new_WorkflowAPI :: "nat \<Rightarrow> string \<Rightarrow> world \<Rightarrow> world" where
  "new_WorkflowAPI a name w =
     w\<lparr>apis := (apis w)(a := \<lparr>workflowName = name, subscriptionId = None\<rparr>)\<rparr>"

text \<open>
  \<open>execute(params, callbacks, config?)\<close>. \<open>now\<close> and \<open>random\<close> make the registration
  id; \<open>now_init\<close> and \<open>now_submit\<close> are the times of the two events. The object's
  \<open>subscriptionId\<close> is set before \<open>subscribe\<close> is called; when \<open>subscribe\<close> throws,
  \<open>execute\<close> throws with that assignment done.
\<close>

definition execute ::
  "nat \<Rightarrow> jsval \<Rightarrow> WorkflowCallbacks \<Rightarrow> WorkflowConfig option \<Rightarrow> nat \<Rightarrow> string \<Rightarrow> nat \<Rightarrow> nat
     \<Rightarrow> world \<Rightarrow> world \<times> completion" where
  "execute a params callbacks config now random now_init now_submit w =
     (let name = workflowName (apis w a);
          registrationId = registration_id name now random;
          w1 = w\<lparr>apis := (apis w)(a := (apis w a)\<lparr>subscriptionId := Some registrationId\<rparr>)\<rparr>
      in case subscribe registrationId (state_change_topic name)
                (StateChangeListener a (configured_successStates config)
                   (configured_errorStates config)
                   (onSuccess callbacks) (onError callbacks) (onProgress callbacks))
                JUndefined JUndefined (bus w1) of
           Inl e \<Rightarrow> (w1, Throw e)
         | Inr b \<Rightarrow>
             (let w2 = w1\<lparr>bus := b\<rparr>;
                  w3 = send (''WF.'' @ name @ ''.INIT'')
                         (JObj [(''header'', workflow_header registrationId name ''INIT'')])
                         JUndefined now_init w2;
                  w4 = send (''WF.'' @ name @ ''.SUBMIT'')
                         (JObj [(''header'', workflow_header registrationId name ''SUBMIT''),
                                (''body'', params)])
                         JUndefined now_submit w3
              in (w4, Normal)))"

section \<open>Programs over the bus\<close>

text \<open>
  The calls a program makes from outside a delivery, and the states it can reach.
  A call that throws (\<open>subscribe\<close> with a topic that is no regular expression)
  leaves the state it has reached and the program goes on.
\<close>

datatype command =
    Subscribe string string listener jsval jsval
  | Unsubscribe string
  | UnsubscribeAll
  | Send string jsval jsval nat
  | ClearHistory
  | NewWorkflowAPI nat string
  | Execute nat jsval WorkflowCallbacks "WorkflowConfig option" nat string nat nat
  | Cancel nat

fun step :: "command \<Rightarrow> world \<Rightarrow> world" where
  "step (Subscribe i t l c d) w =
     (case subscribe i t l c d (bus w) of Inl e \<Rightarrow> w | Inr b \<Rightarrow> w\<lparr>bus := b\<rparr>)"
| "step (Unsubscribe i) w = w\<lparr>bus := unsubscribe i (bus w)\<rparr>"
| "step UnsubscribeAll w = w\<lparr>bus := unsubscribeAll (bus w)\<rparr>"
| "step (Send t x md now) w = send t x md now w"
| "step ClearHistory w = w\<lparr>bus := clearHistory (bus w)\<rparr>"
| "step (NewWorkflowAPI a name) w = new_WorkflowAPI a name w"
| "step (Execute a params callbacks config now random now_init now_submit) w =
     fst (execute a params callbacks config now random now_init now_submit w)"
| "step (Cancel a) w = cancel a w"

fun run :: "command list \<Rightarrow> world \<Rightarrow> world" where
  "run [] w = w"
| "run (c # cs) w = run cs (step c w)"

section \<open>Notions used in the statements\<close>

text \<open>The subscription id a recorded call belongs to, and the calls of listeners.\<close>

fun call_id :: "call \<Rightarrow> string" where
  "call_id (ListenerCall i t x c d) = i"
| "call_id (SuccessCall i x) = i"
| "call_id (ErrorCall i x) = i"
| "call_id (ProgressCall i st x) = i"

fun is_listener_call :: "call \<Rightarrow> bool" where
  "is_listener_call (ListenerCall i t x c d) = True"
| "is_listener_call k = False"

definition calls_of :: "string \<Rightarrow> world \<Rightarrow> call list" where
  "calls_of i w = filter (\<lambda>k. call_id k = i) (calls w)"

definition listener_calls :: "world \<Rightarrow> call list" where
  "listener_calls w = filter is_listener_call (calls w)"

text \<open>The call a subscription's listener gets for an event.\<close>

definition listener_call :: "event \<Rightarrow> subscription \<Rightarrow> call" where
  "listener_call ev s = ListenerCall (sub_id s) (topic ev) (data ev) (closure s) (customData s)"

text \<open>
  \<open>leaves_subscribed i s ev w\<close>: the listener of \<open>s\<close>, called for \<open>ev\<close> in \<open>w\<close>, does not
  unsubscribe \<open>i\<close>. A workflow listener unsubscribes the id its object holds and
  nothing else.
\<close>

definition leaves_subscribed :: "string \<Rightarrow> subscription \<Rightarrow> event \<Rightarrow> world \<Rightarrow> bool" where
  "leaves_subscribed i s ev w =
     (case sub_listener s of
        UserListener f \<Rightarrow>
          (let cs = fst (f (sub_id s) (topic ev) (data ev) (closure s) (customData s))
           in CallUnsubscribeAll \<notin> set cs \<and> CallUnsubscribe i \<notin> set cs)
      | StateChangeListener a ss es cb1 cb2 cb3 \<Rightarrow>
          subscriptionId (apis w a) \<noteq> Some i)"

text \<open>
  \<open>undisturbed i ev w\<close>: no other subscription that passes the event's topic has a
  listener that unsubscribes \<open>i\<close>.
\<close>

definition undisturbed :: "string \<Rightarrow> event \<Rightarrow> world \<Rightarrow> bool" where
  "undisturbed i ev w =
     list_all (\<lambda>s. sub_id s = i \<or> \<not> passes (sub_filter s) (topic ev) \<or> leaves_subscribed i s ev w)
       (subscriptions (bus w))"

text \<open>
  \<open>receives s ev w\<close>: the subject's copy of \<open>s\<close> has not been unsubscribed and its
  filter passes the event, so its listener is called.
\<close>

definition receives :: "subscription \<Rightarrow> event \<Rightarrow> world \<Rightarrow> bool" where
  "receives s ev w \<longleftrightarrow>
     sub_id s \<in> set (getActiveSubscriptions (bus w)) \<and> passes (sub_filter s) (topic ev)"

text \<open>
  \<open>adds_calls i w w'\<close>: from \<open>w\<close> to \<open>w'\<close> only calls of callbacks were recorded, all
  under the id \<open>i\<close>.
\<close>

definition adds_calls :: "string \<Rightarrow> world \<Rightarrow> world \<Rightarrow> bool" where
  "adds_calls i w w' \<longleftrightarrow>
     unhandled w' = unhandled w \<and>
     (\<exists>new. calls w' = calls w @ new \<and> (\<forall>k\<in>set new. call_id k = i \<and> \<not> is_listener_call k))"

text \<open>
  The two invariants of the bus: one subscription per id, and a history no longer
  than its bound.
\<close>

definition well_formed :: "world \<Rightarrow> bool" where
  "well_formed w \<longleftrightarrow>
     distinct (getActiveSubscriptions (bus w)) \<and>
     length (eventHistory (bus w)) \<le> maxHistorySize (bus w)"

text \<open>A publish as a command, the event it builds, and the last \<open>n\<close> elements of a list.\<close>

definition publish :: "string \<times> jsval \<times> jsval \<times> nat \<Rightarrow> command" where
  "publish p = (case p of (t, x, md, now) \<Rightarrow> Send t x md now)"

definition event_of :: "string \<times> jsval \<times> jsval \<times> nat \<Rightarrow> event" where
  "event_of p = (case p of (t, x, md, now) \<Rightarrow> \<lparr>topic = t, data = x, timestamp = now, metadata = md\<rparr>)"

definition keep_last :: "nat \<Rightarrow> 'a list \<Rightarrow> 'a list" where
  "keep_last n xs = drop (length xs - n) xs"

text \<open>
  What was recorded from \<open>w\<close> to \<open>w'\<close>, when the records of \<open>w'\<close> continue those of
  \<open>w\<close> (\<open>grows\<close>).
\<close>

definition calls_since :: "world \<Rightarrow> world \<Rightarrow> call list" where
  "calls_since w w' = drop (length (calls w)) (calls w')"

definition unhandled_since :: "world \<Rightarrow> world \<Rightarrow> exn list" where
  "unhandled_since w w' = drop (length (unhandled w)) (unhandled w')"

definition grows :: "world \<Rightarrow> world \<Rightarrow> bool" where
  "grows w w' \<longleftrightarrow> (\<exists>cs. calls w' = calls w @ cs) \<and> (\<exists>es. unhandled w' = unhandled w @ es)"

text \<open>
  Examples: a listener that returns at once, and a new bus on which two listeners
  subscribe to the topic \<open>A.B\<close>, first \<open>L1\<close>, then \<open>L2\<close>.
\<close>

definition quiet :: listener where
  "quiet = UserListener (\<lambda>i t x c d. ([], Normal))"

definition two_listeners :: "listener \<Rightarrow> listener \<Rightarrow> world" where
  "two_listeners l1 l2 =
     run [Subscribe ''L1'' ''A.B'' l1 JUndefined JUndefined,
          Subscribe ''L2'' ''A.B'' l2 JUndefined JUndefined] (new_world None)"

text \<open>
  \<open>kept i w w'\<close>: from \<open>w\<close> to \<open>w'\<close> the id \<open>i\<close> has stayed registered, or stayed away, and
  the workflow objects that hold \<open>i\<close> are as they were.
\<close>

definition kept :: "string \<Rightarrow> world \<Rightarrow> world \<Rightarrow> bool" where
  "kept i w w' \<longleftrightarrow>
     (i \<in> set (getActiveSubscriptions (bus w')) \<longleftrightarrow> i \<in> set (getActiveSubscriptions (bus w))) \<and>
     (\<forall>a. subscriptionId (apis w a) = Some i \<longrightarrow> apis w' a = apis w a)"

text \<open>
  The arguments of the workflow callbacks: \<open>eventData.event?.data\<close> for a value that is
  an object, and \<open>eventData.event?.data || eventData\<close>.
\<close>

definition inner_data :: "jsval \<Rightarrow> jsval" where
  "inner_data x = optional_member (own_property x ''event'') ''data''"

definition error_argument :: "jsval \<Rightarrow> jsval" where
  "error_argument x = (if truthy (inner_data x) then inner_data x else x)"

text \<open>
  Example: on a new bus, a workflow object for the workflow \<open>W\<close> executes with the
  parameters \<open>{x: 1}\<close>; the registration id is \<open>W.5.r4nd0m\<close>.
\<close>

definition executed :: "WorkflowCallbacks \<Rightarrow> WorkflowConfig option \<Rightarrow> world" where
  "executed callbacks config =
     run [NewWorkflowAPI 0 ''W'',
          Execute 0 (JObj [(''x'', JNum 1)]) callbacks config 5 ''r4nd0m'' 6 7] (new_world None)"

text \<open>
  Two calls of \<open>execute\<close> on one object: the second follows the first, under another
  id, before any state has changed.
\<close>

definition executed_twice :: world where
  "executed_twice =
     run [NewWorkflowAPI 0 ''W'',
          Execute 0 (JObj [(''x'', JNum 1)])
            \<lparr>onSuccess = Some (\<lambda>x. Normal), onError = None, onProgress = None\<rparr> None 5 ''r4nd0m'' 6 7,
          Execute 0 (JObj [(''x'', JNum 2)])
            \<lparr>onSuccess = Some (\<lambda>x. Normal), onError = None, onProgress = None\<rparr> None 8 ''0th3r1d'' 9 10]
       (new_world None)"

definition state_change :: "string \<Rightarrow> jsval \<Rightarrow> jsval" where
  "state_change v payload = JObj [(''value'', JStr v), (''event'', JObj [(''data'', payload)])]"

text \<open>
  \<open>throws_on s ev e\<close>: the listener of \<open>s\<close>, called for \<open>ev\<close>, throws \<open>e\<close>, whatever the
  state it is called in.
\<close>

definition throws_on :: "subscription \<Rightarrow> event \<Rightarrow> exn \<Rightarrow> bool" where
  "throws_on s ev e \<longleftrightarrow>
     (\<forall>v. snd (invoke (sub_listener s) (sub_id s) (topic ev) (data ev) (closure s) (customData s) v)
            = Throw e)"

text \<open>
  The regular expression of a topic in which no \<open>.\<close> occurs: a literal for every
  character but \<open>*\<close>, and \<open>.*\<close> for \<open>*\<close>; and the same expression read off the literal
  segments.
\<close>

definition literals :: "string \<Rightarrow> regex_term list" where
  "literals g = map (\<lambda>c. Once (Literal c)) g"

fun regex_of :: "string \<Rightarrow> regex_term list" where
  "regex_of [] = []"
| "regex_of (c # cs) = (if c = CHR ''*'' then Star Dot else Once (Literal c)) # regex_of cs"

definition starred_segments :: "string list \<Rightarrow> regex_term list" where
  "starred_segments gs = concat (map (\<lambda>g. Star Dot # literals g) gs)"

text \<open>The list \<open>xs'\<close> is \<open>xs\<close> with some elements removed.\<close>

definition thins :: "'a list \<Rightarrow> 'a list \<Rightarrow> bool" where
  "thins xs' xs \<longleftrightarrow> (\<exists>P. xs' = filter P xs)"

text \<open>
  What a delivery can change: it removes subscriptions and clears the
  \<open>subscriptionId\<close> of workflow objects; the history and its bound stay.
\<close>

definition evolves :: "world \<Rightarrow> world \<Rightarrow> bool" where
  "evolves w w' \<longleftrightarrow>
     eventHistory (bus w') = eventHistory (bus w) \<and>
     maxHistorySize (bus w') = maxHistorySize (bus w) \<and>
     debug (bus w') = debug (bus w) \<and>
     thins (subscriptions (bus w')) (subscriptions (bus w)) \<and>
     (\<forall>a. workflowName (apis w' a) = workflowName (apis w a) \<and>
          (subscriptionId (apis w' a) = subscriptionId (apis w a) \<or>
           subscriptionId (apis w' a) = None))"

text \<open>
  The wildcard rule in the specification's words: the literal segments of the pattern
  (its parts between the \<open>*\<close>) appear in the topic in order, compared without regard
  to case, and each \<open>*\<close> stands for any characters. \<open>strip_segment g t\<close> is the rest of
  \<open>t\<close> after the segment \<open>g\<close> at its start.
\<close>

fun split_stars :: "string \<Rightarrow> string list" where
  "split_stars [] = [[]]"
| "split_stars (c # cs) =
     (if c = CHR ''*'' then [] # split_stars cs
      else (case split_stars cs of [] \<Rightarrow> [[c]] | g # gs \<Rightarrow> (c # g) # gs))"

fun strip_segment :: "string \<Rightarrow> string \<Rightarrow> string option" where
  "strip_segment [] t = Some t"
| "strip_segment (g # gs) [] = None"
| "strip_segment (g # gs) (c # cs) =
     (if canonicalize c = canonicalize g then strip_segment gs cs else None)"

fun segments_in_order :: "string list \<Rightarrow> string \<Rightarrow> bool" where
  "segments_in_order [] t = True"
| "segments_in_order (g # gs) [] =
     (case strip_segment g [] of None \<Rightarrow> False | Some r \<Rightarrow> segments_in_order gs r)"
| "segments_in_order (g # gs) (c # cs) =
     ((case strip_segment g (c # cs) of None \<Rightarrow> False | Some r \<Rightarrow> segments_in_order gs r)
      \<or> segments_in_order (g # gs) cs)"

definition spec_wildcard_matches :: "string \<Rightarrow> string \<Rightarrow> bool" where
  "spec_wildcard_matches p t = segments_in_order (split_stars p) t"

section \<open>Basic facts about the registry\<close>

lemma thins_refl: "thins xs xs"
  unfolding thins_def by (rule exI[of _ "\<lambda>x. True"]) simp

lemma thins_trans: "thins ys xs \<Longrightarrow> thins zs ys \<Longrightarrow> thins zs xs"
  unfolding thins_def by (metis filter_filter)

lemma thins_Nil: "thins [] xs"
  unfolding thins_def by (rule exI[of _ "\<lambda>x. False"]) simp

lemma thins_filter: "thins (filter P xs) xs"
  unfolding thins_def by blast

lemma thins_set: "thins xs' xs \<Longrightarrow> set xs' \<subseteq> set xs"
  unfolding thins_def by auto

lemma thins_distinct_map: "thins xs' xs \<Longrightarrow> distinct (map f xs) \<Longrightarrow> distinct (map f xs')"
  unfolding thins_def by (auto simp: distinct_map_filter)

lemma evolves_refl: "evolves w w"
  by (simp add: evolves_def thins_refl)

lemma evolves_trans: "evolves w1 w2 \<Longrightarrow> evolves w2 w3 \<Longrightarrow> evolves w1 w3"
  unfolding evolves_def
  apply (intro conjI)
      apply simp
     apply simp
    apply simp
   apply (meson thins_trans)
  apply metis
  done

lemma subscriptions_unsubscribe:
  "subscriptions (unsubscribe i b) = filter (\<lambda>s. sub_id s \<noteq> i) (subscriptions b)"
proof (cases "i \<in> set (getActiveSubscriptions b)")
  case True
  then show ?thesis by (simp add: unsubscribe_def)
next
  case False
  then have "filter (\<lambda>s. sub_id s \<noteq> i) (subscriptions b) = subscriptions b"
    by (auto simp: filter_id_conv getActiveSubscriptions_def)
  with False show ?thesis by (simp add: unsubscribe_def)
qed

lemma unsubscribe_frame:
  "eventHistory (unsubscribe i b) = eventHistory b"
  "maxHistorySize (unsubscribe i b) = maxHistorySize b"
  "debug (unsubscribe i b) = debug b"
  by (simp_all add: unsubscribe_def)

lemma unsubscribeAll_frame:
  "eventHistory (unsubscribeAll b) = eventHistory b"
  "maxHistorySize (unsubscribeAll b) = maxHistorySize b"
  "debug (unsubscribeAll b) = debug b"
  "subscriptions (unsubscribeAll b) = []"
  by (simp_all add: unsubscribeAll_def)

lemma run_bus_calls_frame:
  "eventHistory (run_bus_calls cs b) = eventHistory b \<and>
   maxHistorySize (run_bus_calls cs b) = maxHistorySize b \<and>
   debug (run_bus_calls cs b) = debug b \<and>
   thins (subscriptions (run_bus_calls cs b)) (subscriptions b)"
proof (induction cs b rule: run_bus_calls.induct)
  case (1 b)
  then show ?case by (simp add: thins_refl)
next
  case (2 i cs b)
  have "thins (subscriptions (unsubscribe i b)) (subscriptions b)"
    by (simp add: subscriptions_unsubscribe thins_filter)
  with 2 show ?case
    by (auto simp: unsubscribe_frame intro: thins_trans)
next
  case (3 cs b)
  have "thins (subscriptions (unsubscribeAll b)) (subscriptions b)"
    by (simp add: unsubscribeAll_frame thins_Nil)
  with 3 show ?case
    by (auto simp: unsubscribeAll_frame intro: thins_trans)
qed

lemma cleanup_evolves: "evolves w (cleanup a w)"
  by (auto simp: evolves_def cleanup_def unsubscribe_frame subscriptions_unsubscribe
      thins_filter thins_refl split: option.splits)

lemma cleanup_calls: "calls (cleanup a w) = calls w" "unhandled (cleanup a w) = unhandled w"
  by (auto simp: cleanup_def split: option.splits)

lemma adds_calls_refl: "adds_calls i w w"
  by (simp add: adds_calls_def)

lemma adds_calls_trans: "adds_calls i w1 w2 \<Longrightarrow> adds_calls i w2 w3 \<Longrightarrow> adds_calls i w1 w3"
  unfolding adds_calls_def by (elim conjE exE) (rule conjI, simp, rule_tac x="new @ newa" in exI, auto)

lemma cleanup_adds: "adds_calls i w (cleanup a w)"
  by (simp add: adds_calls_def cleanup_calls)

lemma call_onSuccess_facts:
  "call_onSuccess cb i x w = (w', r) \<Longrightarrow> evolves w w' \<and> adds_calls i w w'"
  by (auto simp: call_onSuccess_def evolves_def adds_calls_def thins_refl split: option.splits)

lemma call_onError_facts:
  "call_onError cb i x w = (w', r) \<Longrightarrow> evolves w w' \<and> adds_calls i w w'"
  by (auto simp: call_onError_def evolves_def adds_calls_def thins_refl split: option.splits)

lemma call_onProgress_facts:
  "call_onProgress cb i st x w = (w', r) \<Longrightarrow> evolves w w' \<and> adds_calls i w w'"
  by (auto simp: call_onProgress_def evolves_def adds_calls_def thins_refl split: option.splits)

lemma state_change_listener_facts:
  assumes "state_change_listener a ss es cb1 cb2 cb3 i x w = (w', r)"
  shows "evolves w w' \<and> adds_calls i w w'"
proof -
  have step: "evolves w (cleanup a v) \<and> adds_calls i w (cleanup a v)"
    if "evolves w v \<and> adds_calls i w v" for v
    using that by (meson evolves_trans adds_calls_trans cleanup_evolves cleanup_adds)
  show ?thesis
    using assms
    unfolding state_change_listener_def Let_def
    by (auto split: if_splits sum.splits prod.splits completion.splits
        dest: call_onSuccess_facts call_onError_facts call_onProgress_facts
        intro: step evolves_refl adds_calls_refl
        simp: step)
qed

lemma invoke_facts:
  assumes "invoke l i t x c d w = (w', r)"
  shows "evolves w w' \<and> adds_calls i w w'"
proof (cases l)
  case (UserListener f)
  obtain cs r0 where f: "f i t x c d = (cs, r0)" by (cases "f i t x c d")
  with assms UserListener have w': "w' = w\<lparr>bus := run_bus_calls cs (bus w)\<rparr>" by simp
  show ?thesis
    using run_bus_calls_frame[of cs "bus w"]
    by (simp add: w' evolves_def adds_calls_def)
next
  case (StateChangeListener a ss es cb1 cb2 cb3)
  with assms show ?thesis by (simp add: state_change_listener_facts)
qed

text \<open>One observer: what it adds to the record.\<close>

lemma observer_next_skip: "\<not> receives s ev w \<Longrightarrow> observer_next s ev w = w"
  unfolding observer_next_def receives_def by auto

lemma observer_next_receives:
  "receives s ev w \<Longrightarrow>
   observer_next s ev w =
     (case invoke (sub_listener s) (sub_id s) (topic ev) (data ev) (closure s) (customData s)
             (w\<lparr>calls := calls w @ [listener_call ev s]\<rparr>) of
        (w', Normal) \<Rightarrow> w'
      | (w', Throw e) \<Rightarrow> w'\<lparr>unhandled := unhandled w' @ [e]\<rparr>)"
  unfolding observer_next_def receives_def listener_call_def by auto

lemma observer_next_evolves: "evolves w (observer_next s ev w)"
proof (cases "receives s ev w")
  case False
  then show ?thesis by (simp add: observer_next_skip evolves_refl)
next
  case True
  let ?w0 = "w\<lparr>calls := calls w @ [listener_call ev s]\<rparr>"
  obtain w' r where inv: "invoke (sub_listener s) (sub_id s) (topic ev) (data ev) (closure s)
      (customData s) ?w0 = (w', r)"
    by (cases "invoke (sub_listener s) (sub_id s) (topic ev) (data ev) (closure s) (customData s) ?w0")
  have e0: "evolves w ?w0" by (simp add: evolves_def thins_refl)
  have e1: "evolves ?w0 w'" using invoke_facts[OF inv] by simp
  have e2: "evolves w' (w'\<lparr>unhandled := unhandled w' @ [e]\<rparr>)" for e
    by (simp add: evolves_def thins_refl)
  have "observer_next s ev w = (case r of Normal \<Rightarrow> w' | Throw e \<Rightarrow> w'\<lparr>unhandled := unhandled w' @ [e]\<rparr>)"
    using True inv by (simp add: observer_next_receives)
  then show ?thesis
    using e0 e1 e2 by (cases r) (auto intro: evolves_trans)
qed

lemma observer_next_calls:
  "\<exists>new. calls (observer_next s ev w) = calls w @ (if receives s ev w then [listener_call ev s] else []) @ new
         \<and> (\<forall>k\<in>set new. call_id k = sub_id s \<and> \<not> is_listener_call k)"
proof (cases "receives s ev w")
  case False
  then show ?thesis by (simp add: observer_next_skip)
next
  case True
  let ?w0 = "w\<lparr>calls := calls w @ [listener_call ev s]\<rparr>"
  obtain w' r where inv: "invoke (sub_listener s) (sub_id s) (topic ev) (data ev) (closure s)
      (customData s) ?w0 = (w', r)"
    by (cases "invoke (sub_listener s) (sub_id s) (topic ev) (data ev) (closure s) (customData s) ?w0")
  from invoke_facts[OF inv] obtain new where
    new: "calls w' = calls ?w0 @ new" "\<forall>k\<in>set new. call_id k = sub_id s \<and> \<not> is_listener_call k"
    by (auto simp: adds_calls_def)
  have "calls (observer_next s ev w) = calls w'"
    using True inv by (cases r) (simp_all add: observer_next_receives)
  with new True show ?thesis by auto
qed

lemma subject_next_evolves: "evolves w (subject_next obs ev w)"
proof (induction obs arbitrary: w)
  case Nil
  show ?case by (simp add: evolves_refl)
next
  case (Cons s obs)
  show ?case
    using observer_next_evolves[of w s ev] Cons.IH[of "observer_next s ev w"]
    by (auto intro: evolves_trans)
qed

lemma evolves_ids:
  "evolves w w' \<Longrightarrow> set (getActiveSubscriptions (bus w')) \<subseteq> set (getActiveSubscriptions (bus w))"
  unfolding evolves_def getActiveSubscriptions_def
  using thins_set by fastforce

lemma evolves_distinct:
  "evolves w w' \<Longrightarrow> distinct (getActiveSubscriptions (bus w))
     \<Longrightarrow> distinct (getActiveSubscriptions (bus w'))"
  unfolding evolves_def getActiveSubscriptions_def
  by (auto intro: thins_distinct_map)

text \<open>Calls under an id that no observer of the list carries, or that is not registered.\<close>

lemma observer_next_calls_of_other:
  "sub_id s \<noteq> i \<or> i \<notin> set (getActiveSubscriptions (bus w))
     \<Longrightarrow> calls_of i (observer_next s ev w) = calls_of i w"
proof -
  assume a: "sub_id s \<noteq> i \<or> i \<notin> set (getActiveSubscriptions (bus w))"
  show ?thesis
  proof (cases "sub_id s = i")
    case True
    with a have "\<not> receives s ev w" by (simp add: receives_def)
    then show ?thesis by (simp add: observer_next_skip)
  next
    case False
    from observer_next_calls[of s ev w] obtain new where
      "calls (observer_next s ev w) = calls w @ (if receives s ev w then [listener_call ev s] else []) @ new"
      "\<forall>k\<in>set new. call_id k = sub_id s \<and> \<not> is_listener_call k"
      by blast
    with False show ?thesis
      by (auto simp: calls_of_def listener_call_def filter_empty_conv)
  qed
qed

lemma subject_next_calls_of_other:
  "(\<forall>s\<in>set obs. sub_id s \<noteq> i) \<or> i \<notin> set (getActiveSubscriptions (bus w))
     \<Longrightarrow> calls_of i (subject_next obs ev w) = calls_of i w"
proof (induction obs arbitrary: w)
  case Nil
  show ?case by simp
next
  case (Cons s obs)
  have 1: "calls_of i (observer_next s ev w) = calls_of i w"
    using Cons.prems by (intro observer_next_calls_of_other) auto
  have "(\<forall>s\<in>set obs. sub_id s \<noteq> i) \<or> i \<notin> set (getActiveSubscriptions (bus (observer_next s ev w)))"
    using Cons.prems evolves_ids[OF observer_next_evolves[of w s ev]] by auto
  from Cons.IH[OF this] 1 show ?case by simp
qed

lemma subscribe_cases:
  assumes "subscribe i t l c d b = Inr b'"
  shows "(i \<in> set (getActiveSubscriptions b) \<and> b' = b) \<or>
         (i \<notin> set (getActiveSubscriptions b) \<and>
          (\<exists>f. make_filter t = Inr f \<and>
               b' = b\<lparr>subscriptions := subscriptions b @
                     [\<lparr>sub_id = i, sub_topic = t, sub_filter = f, sub_listener = l,
                       closure = c, customData = d\<rparr>]\<rparr>))"
  using assms by (auto simp: subscribe_def split: if_splits sum.splits)

lemma subscribe_invariant:
  assumes "subscribe i t l c d b = Inr b'"
  shows "eventHistory b' = eventHistory b \<and> maxHistorySize b' = maxHistorySize b \<and>
         (distinct (getActiveSubscriptions b) \<longrightarrow> distinct (getActiveSubscriptions b'))"
  using subscribe_cases[OF assms] by (auto simp: getActiveSubscriptions_def)

lemma addToHistory_frame:
  "subscriptions (addToHistory ev b) = subscriptions b"
  "maxHistorySize (addToHistory ev b) = maxHistorySize b"
  "debug (addToHistory ev b) = debug b"
  by (simp_all add: addToHistory_def Let_def)

lemma addToHistory_last:
  "length (eventHistory b) \<le> maxHistorySize b \<Longrightarrow>
   eventHistory (addToHistory ev b) =
     drop (length (eventHistory b @ [ev]) - maxHistorySize b) (eventHistory b @ [ev])"
proof (cases "length (eventHistory b) = maxHistorySize b")
  case True
  then have "length (eventHistory b @ [ev]) - maxHistorySize b = Suc 0" by simp
  moreover have "drop (Suc 0) xs = tl xs" for xs :: "event list"
    by (cases xs) simp_all
  moreover have "eventHistory (addToHistory ev b) = tl (eventHistory b @ [ev])"
    using True by (simp add: addToHistory_def Let_def)
  ultimately show ?thesis by (simp del: drop_append)
next
  case False
  assume "length (eventHistory b) \<le> maxHistorySize b"
  with False have lt: "length (eventHistory b) < maxHistorySize b" by simp
  then have "eventHistory (addToHistory ev b) = eventHistory b @ [ev]"
    by (simp add: addToHistory_def Let_def)
  moreover from lt have "length (eventHistory b @ [ev]) - maxHistorySize b = 0" by simp
  ultimately show ?thesis by simp
qed

lemma addToHistory_bound:
  "length (eventHistory b) \<le> maxHistorySize b \<Longrightarrow>
   length (eventHistory (addToHistory ev b)) \<le> maxHistorySize b"
  by (simp add: addToHistory_last)

lemma send_bus:
  "eventHistory (bus (send t x md now w)) =
     eventHistory (addToHistory \<lparr>topic = t, data = x, timestamp = now, metadata = md\<rparr> (bus w))
   \<and> maxHistorySize (bus (send t x md now w)) = maxHistorySize (bus w)
   \<and> thins (subscriptions (bus (send t x md now w))) (subscriptions (bus w))"
proof -
  let ?ev = "\<lparr>topic = t, data = x, timestamp = now, metadata = md\<rparr>"
  let ?w1 = "w\<lparr>bus := addToHistory ?ev (bus w)\<rparr>"
  have "evolves ?w1 (subject_next (subscriptions (bus ?w1)) ?ev ?w1)"
    by (rule subject_next_evolves)
  then show ?thesis
    by (simp add: send_def Let_def evolves_def addToHistory_frame)
qed

lemma send_well_formed:
  "well_formed w \<Longrightarrow> well_formed (send t x md now w)"
  using send_bus[of t x md now w]
  by (auto simp: well_formed_def addToHistory_bound getActiveSubscriptions_def
      intro: thins_distinct_map)

lemma cleanup_bus:
  "eventHistory (bus (cleanup a w)) = eventHistory (bus w) \<and>
   maxHistorySize (bus (cleanup a w)) = maxHistorySize (bus w) \<and>
   thins (subscriptions (bus (cleanup a w))) (subscriptions (bus w))"
  using cleanup_evolves[of w a] by (simp add: evolves_def)

lemma execute_bus:
  "maxHistorySize (bus (fst (execute a p cbs cfg now rnd n1 n2 w))) = maxHistorySize (bus w) \<and>
   (well_formed w \<longrightarrow> well_formed (fst (execute a p cbs cfg now rnd n1 n2 w)))"
proof -
  let ?name = "workflowName (apis w a)"
  let ?rid = "registration_id ?name now rnd"
  let ?w1 = "w\<lparr>apis := (apis w)(a := (apis w a)\<lparr>subscriptionId := Some ?rid\<rparr>)\<rparr>"
  let ?l = "StateChangeListener a (configured_successStates cfg) (configured_errorStates cfg)
              (onSuccess cbs) (onError cbs) (onProgress cbs)"
  show ?thesis
  proof (cases "subscribe ?rid (state_change_topic ?name) ?l JUndefined JUndefined (bus ?w1)")
    case (Inl e)
    then show ?thesis by (simp add: execute_def Let_def well_formed_def)
  next
    case (Inr b)
    from subscribe_invariant[OF Inr]
    have wf2: "well_formed w \<Longrightarrow> well_formed (?w1\<lparr>bus := b\<rparr>)"
      and m2: "maxHistorySize (bus (?w1\<lparr>bus := b\<rparr>)) = maxHistorySize (bus w)"
      by (auto simp: well_formed_def)
    show ?thesis
      using Inr wf2 m2
      by (simp add: execute_def Let_def send_well_formed send_bus)
  qed
qed

lemma step_well_formed:
  "maxHistorySize (bus (step c w)) = maxHistorySize (bus w) \<and>
   (well_formed w \<longrightarrow> well_formed (step c w))"
proof (cases c)
  case (Subscribe i t l cl d)
  then show ?thesis
    by (auto simp: well_formed_def split: sum.splits dest: subscribe_invariant)
next
  case (Unsubscribe i)
  then show ?thesis
    by (auto simp: well_formed_def unsubscribe_frame subscriptions_unsubscribe
        getActiveSubscriptions_def distinct_map_filter)
next
  case UnsubscribeAll
  then show ?thesis
    by (simp add: well_formed_def unsubscribeAll_frame getActiveSubscriptions_def)
next
  case (Send t x md now)
  then show ?thesis by (simp add: send_well_formed send_bus)
next
  case ClearHistory
  then show ?thesis by (simp add: well_formed_def clearHistory_def getActiveSubscriptions_def)
next
  case (NewWorkflowAPI a name)
  then show ?thesis by (simp add: well_formed_def new_WorkflowAPI_def)
next
  case (Execute a p cbs cfg now rnd n1 n2)
  then show ?thesis using execute_bus[of a p cbs cfg now rnd n1 n2 w] by simp
next
  case (Cancel a)
  then show ?thesis
    using cleanup_bus[of a w]
    by (auto simp: well_formed_def cancel_def getActiveSubscriptions_def intro: thins_distinct_map)
qed

lemma run_well_formed:
  "maxHistorySize (bus (run cs w)) = maxHistorySize (bus w) \<and>
   (well_formed w \<longrightarrow> well_formed (run cs w))"
proof (induction cs arbitrary: w)
  case Nil
  show ?case by simp
next
  case (Cons c cs)
  show ?case using Cons.IH[of "step c w"] step_well_formed[of c w] by simp
qed

lemma new_world_well_formed: "well_formed (new_world options)"
  by (simp add: well_formed_def new_world_def new_EventBus_def getActiveSubscriptions_def)

lemma keep_last_rev: "keep_last n xs = rev (take n (rev xs))"
  by (simp add: keep_last_def take_rev)

lemma keep_last_append: "keep_last n (keep_last n xs @ ys) = keep_last n (xs @ ys)"
proof -
  have "take n (rev ys @ take n (rev xs)) = take n (rev ys @ rev xs)"
    by (simp add: min_def)
  then show ?thesis by (simp add: keep_last_rev)
qed

lemma send_history:
  "length (eventHistory (bus w)) \<le> maxHistorySize (bus w) \<Longrightarrow>
   eventHistory (bus (send t x md now w)) =
     keep_last (maxHistorySize (bus w))
       (eventHistory (bus w) @ [\<lparr>topic = t, data = x, timestamp = now, metadata = md\<rparr>])"
  using send_bus[of t x md now w] addToHistory_last[of "bus w"]
  by (simp add: keep_last_def)

lemma run_publish_history:
  "well_formed w \<Longrightarrow>
   eventHistory (bus (run (map publish es) w)) =
     keep_last (maxHistorySize (bus w)) (eventHistory (bus w) @ map event_of es)"
proof (induction es arbitrary: w)
  case Nil
  then show ?case by (simp add: keep_last_def well_formed_def)
next
  case (Cons p es)
  obtain t x md now where p: "p = (t, x, md, now)" by (cases p) auto
  let ?w = "send t x md now w"
  have wf: "well_formed ?w" using Cons.prems by (rule send_well_formed)
  have m: "maxHistorySize (bus ?w) = maxHistorySize (bus w)" by (simp add: send_bus)
  have h: "eventHistory (bus ?w) = keep_last (maxHistorySize (bus w)) (eventHistory (bus w) @ [event_of p])"
    using Cons.prems by (simp add: send_history well_formed_def p event_of_def)
  have "eventHistory (bus (run (map publish (p # es)) w)) = eventHistory (bus (run (map publish es) ?w))"
    by (simp add: p publish_def)
  also have "\<dots> = keep_last (maxHistorySize (bus w)) (eventHistory (bus ?w) @ map event_of es)"
    using Cons.IH[OF wf] m by simp
  also have "\<dots> = keep_last (maxHistorySize (bus w)) ((eventHistory (bus w) @ [event_of p]) @ map event_of es)"
    unfolding h by (rule keep_last_append)
  finally show ?case by simp
qed

lemma grows_refl: "grows w w"
  by (simp add: grows_def)

lemma grows_trans: "grows w1 w2 \<Longrightarrow> grows w2 w3 \<Longrightarrow> grows w1 w3"
  by (auto simp: grows_def)

lemma grows_since:
  "grows w w' \<Longrightarrow> calls w' = calls w @ calls_since w w' \<and> unhandled w' = unhandled w @ unhandled_since w w'"
  by (auto simp: grows_def calls_since_def unhandled_since_def)

lemma grows_since_trans:
  "grows w1 w2 \<Longrightarrow> grows w2 w3 \<Longrightarrow>
   calls_since w1 w3 = calls_since w1 w2 @ calls_since w2 w3 \<and>
   unhandled_since w1 w3 = unhandled_since w1 w2 @ unhandled_since w2 w3"
  by (auto simp: grows_def calls_since_def unhandled_since_def)

lemma observer_next_grows: "grows w (observer_next s ev w)"
proof (cases "receives s ev w")
  case False
  then show ?thesis by (simp add: observer_next_skip grows_refl)
next
  case True
  let ?w0 = "w\<lparr>calls := calls w @ [listener_call ev s]\<rparr>"
  obtain w' r where inv: "invoke (sub_listener s) (sub_id s) (topic ev) (data ev) (closure s)
      (customData s) ?w0 = (w', r)"
    by (cases "invoke (sub_listener s) (sub_id s) (topic ev) (data ev) (closure s) (customData s) ?w0")
  from invoke_facts[OF inv] have "grows ?w0 w'"
    by (auto simp: adds_calls_def grows_def)
  then have "grows w w'" by (auto simp: grows_def)
  then show ?thesis
    using True inv by (cases r) (auto simp: observer_next_receives grows_def)
qed

lemma subject_next_grows: "grows w (subject_next obs ev w)"
proof (induction obs arbitrary: w)
  case Nil
  show ?case by (simp add: grows_refl)
next
  case (Cons s obs)
  show ?case
    using observer_next_grows[of w s ev] Cons.IH[of "observer_next s ev w"]
    by (auto intro: grows_trans)
qed

text \<open>
  A subscription that receives the event: its call is recorded, and what its
  listener throws is in \<open>unhandled\<close>.
\<close>

lemma observer_next_received:
  assumes "receives s ev w"
  shows "listener_call ev s \<in> set (calls_since w (observer_next s ev w)) \<and>
         (\<forall>e. throws_on s ev e \<longrightarrow> e \<in> set (unhandled_since w (observer_next s ev w)))"
proof -
  let ?w0 = "w\<lparr>calls := calls w @ [listener_call ev s]\<rparr>"
  obtain w' r where inv: "invoke (sub_listener s) (sub_id s) (topic ev) (data ev) (closure s)
      (customData s) ?w0 = (w', r)"
    by (cases "invoke (sub_listener s) (sub_id s) (topic ev) (data ev) (closure s) (customData s) ?w0")
  from invoke_facts[OF inv] obtain new where
    new: "calls w' = calls w @ listener_call ev s # new" and u: "unhandled w' = unhandled w"
    by (auto simp: adds_calls_def)
  have next_eq: "observer_next s ev w = (case r of Normal \<Rightarrow> w' | Throw e \<Rightarrow> w'\<lparr>unhandled := unhandled w' @ [e]\<rparr>)"
    using assms inv by (simp add: observer_next_receives)
  have 1: "listener_call ev s \<in> set (calls_since w (observer_next s ev w))"
    using new by (cases r) (simp_all add: next_eq calls_since_def)
  have 2: "e \<in> set (unhandled_since w (observer_next s ev w))" if "throws_on s ev e" for e
  proof -
    from that have "snd (invoke (sub_listener s) (sub_id s) (topic ev) (data ev) (closure s)
        (customData s) ?w0) = Throw e"
      unfolding throws_on_def by blast
    with inv have "r = Throw e" by simp
    then show ?thesis using u by (simp add: next_eq unhandled_since_def)
  qed
  from 1 2 show ?thesis by blast
qed

lemma subject_next_survivor:
  assumes "s \<in> set obs" "passes (sub_filter s) (topic ev)"
    "sub_id s \<in> set (getActiveSubscriptions (bus (subject_next obs ev w)))"
  shows "listener_call ev s \<in> set (calls_since w (subject_next obs ev w)) \<and>
         (\<forall>e. throws_on s ev e \<longrightarrow> e \<in> set (unhandled_since w (subject_next obs ev w)))"
  using assms
proof (induction obs arbitrary: w)
  case Nil
  then show ?case by simp
next
  case (Cons h obs)
  let ?w1 = "observer_next h ev w"
  let ?w2 = "subject_next obs ev ?w1"
  have g1: "grows w ?w1" by (rule observer_next_grows)
  have g2: "grows ?w1 ?w2" by (rule subject_next_grows)
  note split = grows_since_trans[OF g1 g2]
  show ?case
  proof (cases "s = h")
    case True
    have "sub_id s \<in> set (getActiveSubscriptions (bus ?w1))"
      using Cons.prems(3) evolves_ids[OF subject_next_evolves[of ?w1 obs ev]] by auto
    then have "sub_id s \<in> set (getActiveSubscriptions (bus w))"
      using evolves_ids[OF observer_next_evolves[of w h ev]] by auto
    then have "receives h ev w" using Cons.prems(2) True by (simp add: receives_def)
    from observer_next_received[OF this] True split show ?thesis by auto
  next
    case False
    with Cons.prems have "s \<in> set obs" by simp
    from Cons.IH[OF this Cons.prems(2), of ?w1] Cons.prems(3) split show ?thesis by auto
  qed
qed

text \<open>The listener calls of a delivery, in order.\<close>

lemma observer_next_listener_calls:
  "listener_calls (observer_next s ev w) =
     listener_calls w @ (if receives s ev w then [listener_call ev s] else [])"
proof -
  from observer_next_calls[of s ev w] obtain new where
    "calls (observer_next s ev w) = calls w @ (if receives s ev w then [listener_call ev s] else []) @ new"
    "\<forall>k\<in>set new. call_id k = sub_id s \<and> \<not> is_listener_call k"
    by blast
  then show ?thesis
    by (auto simp: listener_calls_def listener_call_def filter_empty_conv)
qed

lemma subject_next_listener_calls:
  assumes "distinct (map sub_id obs)"
  shows "\<exists>K. K \<subseteq> set obs \<and>
           (\<forall>s\<in>K. sub_id s \<notin> set (getActiveSubscriptions (bus (subject_next obs ev w)))) \<and>
           listener_calls (subject_next obs ev w) =
             listener_calls w @
             map (listener_call ev) (filter (\<lambda>s. passes (sub_filter s) (topic ev) \<and> s \<notin> K) obs)"
  using assms
proof (induction obs arbitrary: w)
  case Nil
  show ?case by simp
next
  case (Cons h obs)
  let ?w1 = "observer_next h ev w"
  let ?w2 = "subject_next obs ev ?w1"
  from Cons.prems have d: "distinct (map sub_id obs)" and h: "h \<notin> set obs" by auto
  from Cons.IH[OF d, of ?w1] obtain K where
    K: "K \<subseteq> set obs" "\<forall>s\<in>K. sub_id s \<notin> set (getActiveSubscriptions (bus ?w2))"
    "listener_calls ?w2 = listener_calls ?w1 @
       map (listener_call ev) (filter (\<lambda>s. passes (sub_filter s) (topic ev) \<and> s \<notin> K) obs)"
    by blast
  from K(1) h have hK: "h \<notin> K" by auto
  show ?case
  proof (cases "passes (sub_filter h) (topic ev) \<and> \<not> receives h ev w")
    case True
    then have "sub_id h \<notin> set (getActiveSubscriptions (bus w))" by (auto simp: receives_def)
    then have gone: "sub_id h \<notin> set (getActiveSubscriptions (bus ?w2))"
      using evolves_ids[OF subject_next_evolves[of ?w1 obs ev]]
        evolves_ids[OF observer_next_evolves[of w h ev]] by auto
    have same: "filter (\<lambda>s. passes (sub_filter s) (topic ev) \<and> s \<notin> insert h K) obs =
                filter (\<lambda>s. passes (sub_filter s) (topic ev) \<and> s \<notin> K) obs"
      using h by (intro filter_cong) auto
    have "listener_calls ?w2 = listener_calls w @
       map (listener_call ev) (filter (\<lambda>s. passes (sub_filter s) (topic ev) \<and> s \<notin> insert h K) (h # obs))"
      using K(3) True same by (simp add: observer_next_listener_calls)
    moreover have "insert h K \<subseteq> set (h # obs)" using K(1) by auto
    moreover have "\<forall>s\<in>insert h K. sub_id s \<notin> set (getActiveSubscriptions (bus ?w2))"
      using K(2) gone by auto
    ultimately show ?thesis
      by (intro exI[of _ "insert h K"]) simp
  next
    case False
    have "listener_calls ?w2 = listener_calls w @
       map (listener_call ev) (filter (\<lambda>s. passes (sub_filter s) (topic ev) \<and> s \<notin> K) (h # obs))"
      using K(3) False hK by (auto simp: observer_next_listener_calls receives_def)
    moreover have "K \<subseteq> set (h # obs)" using K(1) by auto
    ultimately show ?thesis
      using K(2) by (intro exI[of _ K]) simp
  qed
qed

lemma send_snapshot:
  "send t x md now w =
     subject_next (subscriptions (bus w)) \<lparr>topic = t, data = x, timestamp = now, metadata = md\<rparr>
       (w\<lparr>bus := addToHistory \<lparr>topic = t, data = x, timestamp = now, metadata = md\<rparr> (bus w)\<rparr>)"
  by (simp add: send_def Let_def addToHistory_frame)

text \<open>Listeners that leave a subscription alone.\<close>

lemma run_bus_calls_keeps:
  "CallUnsubscribeAll \<notin> set cs \<Longrightarrow> CallUnsubscribe i \<notin> set cs \<Longrightarrow>
   (i \<in> set (getActiveSubscriptions (run_bus_calls cs b)) \<longleftrightarrow> i \<in> set (getActiveSubscriptions b))"
proof (induction cs b rule: run_bus_calls.induct)
  case (1 b)
  show ?case by simp
next
  case (2 j cs b)
  then have "j \<noteq> i" by auto
  then have "i \<in> set (getActiveSubscriptions (unsubscribe j b)) \<longleftrightarrow> i \<in> set (getActiveSubscriptions b)"
    by (auto simp: getActiveSubscriptions_def subscriptions_unsubscribe)
  with 2 show ?case by simp
next
  case (3 cs b)
  then show ?case by simp
qed

lemma cleanup_keeps:
  assumes "subscriptionId (apis w a') \<noteq> Some i"
  shows "(i \<in> set (getActiveSubscriptions (bus (cleanup a' w))) \<longleftrightarrow> i \<in> set (getActiveSubscriptions (bus w)))
       \<and> (\<forall>a. subscriptionId (apis w a) = Some i \<longrightarrow> apis (cleanup a' w) a = apis w a)"
  using assms
  by (auto simp: cleanup_def getActiveSubscriptions_def subscriptions_unsubscribe split: option.splits)

lemma kept_refl: "kept i w w"
  by (simp add: kept_def)

lemma kept_trans: "kept i w1 w2 \<Longrightarrow> kept i w2 w3 \<Longrightarrow> kept i w1 w3"
  by (auto simp: kept_def)

lemma call_onSuccess_kept: "call_onSuccess cb j x w = (w', r) \<Longrightarrow> bus w' = bus w \<and> apis w' = apis w"
  by (auto simp: call_onSuccess_def split: option.splits)

lemma call_onError_kept: "call_onError cb j x w = (w', r) \<Longrightarrow> bus w' = bus w \<and> apis w' = apis w"
  by (auto simp: call_onError_def split: option.splits)

lemma call_onProgress_kept: "call_onProgress cb j st x w = (w', r) \<Longrightarrow> bus w' = bus w \<and> apis w' = apis w"
  by (auto simp: call_onProgress_def split: option.splits)

lemma state_change_listener_shape:
  assumes "state_change_listener a' ss es cb1 cb2 cb3 j x w = (w', r)"
  shows "\<exists>v. bus v = bus w \<and> apis v = apis w \<and> (w' = v \<or> w' = cleanup a' v)"
proof -
  have same: "\<exists>v. bus v = bus w \<and> apis v = apis w \<and> (w = v \<or> w = cleanup a' v)"
    by (rule exI[of _ w]) simp
  show ?thesis
    using assms same
    unfolding state_change_listener_def Let_def
    by (auto split: if_splits sum.splits prod.splits completion.splits
        dest!: call_onSuccess_kept call_onError_kept call_onProgress_kept)
qed

lemma state_change_listener_kept:
  assumes "state_change_listener a' ss es cb1 cb2 cb3 j x w = (w', r)"
    and "subscriptionId (apis w a') \<noteq> Some i"
  shows "kept i w w'"
proof -
  from state_change_listener_shape[OF assms(1)] obtain v where
    v: "bus v = bus w" "apis v = apis w" "w' = v \<or> w' = cleanup a' v" by blast
  have "kept i w v" using v by (simp add: kept_def)
  moreover have "kept i w (cleanup a' v)"
    using cleanup_keeps[of v a' i] assms(2) v by (simp add: kept_def)
  ultimately show ?thesis using v(3) by auto
qed

lemma invoke_kept:
  assumes "invoke (sub_listener s) (sub_id s) (topic ev) (data ev) (closure s) (customData s) w = (w', r)"
    and "leaves_subscribed i s ev w"
  shows "kept i w w'"
proof (cases "sub_listener s")
  case (UserListener f)
  obtain cs r0 where f: "f (sub_id s) (topic ev) (data ev) (closure s) (customData s) = (cs, r0)"
    by (cases "f (sub_id s) (topic ev) (data ev) (closure s) (customData s)")
  from assms(2) UserListener f have "CallUnsubscribeAll \<notin> set cs" "CallUnsubscribe i \<notin> set cs"
    by (simp_all add: leaves_subscribed_def)
  from run_bus_calls_keeps[OF this, of "bus w"] assms(1) UserListener f
  show ?thesis by (auto simp: kept_def)
next
  case (StateChangeListener a' ss es cb1 cb2 cb3)
  with assms show ?thesis
    by (auto simp: leaves_subscribed_def intro: state_change_listener_kept)
qed

lemma observer_next_kept:
  assumes "receives s ev w \<longrightarrow> leaves_subscribed i s ev w"
  shows "kept i w (observer_next s ev w)"
proof (cases "receives s ev w")
  case False
  then show ?thesis by (simp add: observer_next_skip kept_refl)
next
  case True
  let ?w0 = "w\<lparr>calls := calls w @ [listener_call ev s]\<rparr>"
  obtain w' r where inv: "invoke (sub_listener s) (sub_id s) (topic ev) (data ev) (closure s)
      (customData s) ?w0 = (w', r)"
    by (cases "invoke (sub_listener s) (sub_id s) (topic ev) (data ev) (closure s) (customData s) ?w0")
  have "leaves_subscribed i s ev ?w0"
    using assms True by (cases "sub_listener s") (simp_all add: leaves_subscribed_def)
  from invoke_kept[OF inv this] have "kept i w w'" by (simp add: kept_def)
  then show ?thesis
    using True inv by (cases r) (simp_all add: observer_next_receives kept_def)
qed

lemma leaves_subscribed_evolves:
  assumes "evolves w w'" and "leaves_subscribed i s ev w"
  shows "leaves_subscribed i s ev w'"
proof (cases "sub_listener s")
  case (UserListener f)
  with assms(2) show ?thesis by (simp add: leaves_subscribed_def)
next
  case (StateChangeListener a ss es cb1 cb2 cb3)
  from assms(1) have "subscriptionId (apis w' a) = subscriptionId (apis w a) \<or>
      subscriptionId (apis w' a) = None"
    by (simp add: evolves_def)
  moreover from assms(2) StateChangeListener have "subscriptionId (apis w a) \<noteq> Some i"
    by (simp add: leaves_subscribed_def)
  ultimately show ?thesis using StateChangeListener by (auto simp: leaves_subscribed_def)
qed

lemma subject_next_kept:
  assumes "\<forall>s\<in>set obs. passes (sub_filter s) (topic ev) \<longrightarrow> leaves_subscribed i s ev w"
  shows "kept i w (subject_next obs ev w)"
  using assms
proof (induction obs arbitrary: w)
  case Nil
  show ?case by (simp add: kept_refl)
next
  case (Cons h obs)
  let ?w1 = "observer_next h ev w"
  have 1: "kept i w ?w1"
    using Cons.prems by (intro observer_next_kept) (simp add: receives_def)
  have "\<forall>s\<in>set obs. passes (sub_filter s) (topic ev) \<longrightarrow> leaves_subscribed i s ev ?w1"
    using Cons.prems leaves_subscribed_evolves[OF observer_next_evolves[of w h ev]] by auto
  from Cons.IH[OF this] 1 show ?case by (auto intro: kept_trans)
qed

lemma subject_next_append:
  "subject_next (pre @ post) ev w = subject_next post ev (subject_next pre ev w)"
  by (induction pre arbitrary: w) simp_all

lemma subject_next_calls_of_unreached:
  "(\<forall>s\<in>set obs. sub_id s \<noteq> i \<or> \<not> passes (sub_filter s) (topic ev))
     \<Longrightarrow> calls_of i (subject_next obs ev w) = calls_of i w"
proof (induction obs arbitrary: w)
  case Nil
  show ?case by simp
next
  case (Cons s obs)
  have "calls_of i (observer_next s ev w) = calls_of i w"
  proof (cases "sub_id s = i")
    case True
    with Cons.prems have "\<not> receives s ev w" by (simp add: receives_def)
    then show ?thesis by (simp add: observer_next_skip)
  next
    case False
    then show ?thesis by (simp add: observer_next_calls_of_other)
  qed
  with Cons show ?case by simp
qed

lemma undisturbed_iff:
  "undisturbed i ev w \<longleftrightarrow>
     (\<forall>s\<in>set (subscriptions (bus w)). sub_id s \<noteq> i \<longrightarrow> passes (sub_filter s) (topic ev)
        \<longrightarrow> leaves_subscribed i s ev w)"
  by (auto simp: undisturbed_def list_all_iff)

text \<open>The delivery up to the turn of one subscription.\<close>

lemma send_reaches:
  assumes d: "distinct (getActiveSubscriptions (bus w))"
    and s: "s \<in> set (subscriptions (bus w))"
    and u: "undisturbed (sub_id s) \<lparr>topic = t, data = x, timestamp = now, metadata = md\<rparr> w"
  shows "\<exists>post w1.
           send t x md now w =
             subject_next post \<lparr>topic = t, data = x, timestamp = now, metadata = md\<rparr>
               (observer_next s \<lparr>topic = t, data = x, timestamp = now, metadata = md\<rparr> w1)
         \<and> evolves (w\<lparr>bus := addToHistory \<lparr>topic = t, data = x, timestamp = now, metadata = md\<rparr> (bus w)\<rparr>) w1
         \<and> grows w w1
         \<and> kept (sub_id s) w w1
         \<and> calls_of (sub_id s) w1 = calls_of (sub_id s) w
         \<and> (\<forall>s'\<in>set post. sub_id s' \<noteq> sub_id s \<and>
               (passes (sub_filter s') t \<longrightarrow>
                  leaves_subscribed (sub_id s) s' \<lparr>topic = t, data = x, timestamp = now, metadata = md\<rparr> w1))"
proof -
  let ?ev = "\<lparr>topic = t, data = x, timestamp = now, metadata = md\<rparr>"
  let ?w0 = "w\<lparr>bus := addToHistory ?ev (bus w)\<rparr>"
  let ?i = "sub_id s"
  from s obtain pre post where split: "subscriptions (bus w) = pre @ s # post"
    by (auto simp: in_set_conv_decomp)
  from d split have "sub_id s \<notin> sub_id ` set pre" "sub_id s \<notin> sub_id ` set post"
    by (auto simp: getActiveSubscriptions_def)
  then have ids: "\<forall>s'\<in>set pre \<union> set post. sub_id s' \<noteq> ?i"
    by (metis Un_iff imageI)
  have ls0: "leaves_subscribed ?i s' ?ev ?w0" if "s' \<in> set pre \<union> set post" "passes (sub_filter s') t" for s'
  proof -
    from that split have "s' \<in> set (subscriptions (bus w))" by auto
    with u ids that have "leaves_subscribed ?i s' ?ev w" by (auto simp: undisturbed_iff)
    then show ?thesis by (cases "sub_listener s'") (simp_all add: leaves_subscribed_def)
  qed
  let ?w1 = "subject_next pre ?ev ?w0"
  have e: "evolves ?w0 ?w1" by (rule subject_next_evolves)
  have g: "grows w ?w1" using subject_next_grows[of ?w0 pre ?ev] by (simp add: grows_def)
  have "kept ?i ?w0 ?w1" using ls0 by (intro subject_next_kept) auto
  then have k: "kept ?i w ?w1" by (simp add: kept_def addToHistory_frame getActiveSubscriptions_def)
  have "calls_of ?i ?w1 = calls_of ?i ?w0"
    using ids by (intro subject_next_calls_of_unreached) auto
  then have c: "calls_of ?i ?w1 = calls_of ?i w" by (simp add: calls_of_def)
  have p: "\<forall>s'\<in>set post. sub_id s' \<noteq> ?i \<and> (passes (sub_filter s') t \<longrightarrow> leaves_subscribed ?i s' ?ev ?w1)"
    using ids ls0 leaves_subscribed_evolves[OF e] by auto
  have "send t x md now w = subject_next post ?ev (observer_next s ?ev ?w1)"
    by (simp add: send_snapshot split subject_next_append)
  with e g k c p show ?thesis by blast
qed


lemma observer_next_own_calls:
  assumes "receives s ev w"
  shows "filter is_listener_call (calls_of (sub_id s) (observer_next s ev w)) =
           filter is_listener_call (calls_of (sub_id s) w) @ [listener_call ev s]"
proof -
  from observer_next_calls[of s ev w] assms obtain new where
    "calls (observer_next s ev w) = calls w @ [listener_call ev s] @ new"
    "\<forall>k\<in>set new. call_id k = sub_id s \<and> \<not> is_listener_call k"
    by auto
  then show ?thesis
    by (auto simp: calls_of_def listener_call_def filter_empty_conv)
qed

lemma step_subscribe_fresh:
  assumes "i \<notin> set (getActiveSubscriptions (bus w))" and "make_filter p = Inr f"
  shows "step (Subscribe i p l c d) w =
           w\<lparr>bus := (bus w)\<lparr>subscriptions := subscriptions (bus w) @
                [\<lparr>sub_id = i, sub_topic = p, sub_filter = f, sub_listener = l,
                  closure = c, customData = d\<rparr>]\<rparr>\<rparr>"
  using assms by (simp add: subscribe_def)





lemma cleanup_tracked:
  assumes "subscriptionId (apis w a) = Some i" and "i \<noteq> []"
  shows "i \<notin> set (getActiveSubscriptions (bus (cleanup a w)))
       \<and> subscriptionId (apis (cleanup a w) a) = None"
  using assms by (auto simp: cleanup_def getActiveSubscriptions_def subscriptions_unsubscribe)

lemma evolves_cleared:
  "evolves w w' \<Longrightarrow> subscriptionId (apis w a) = None \<Longrightarrow> subscriptionId (apis w' a) = None"
  unfolding evolves_def by metis






lemma calls_of_unhandled: "calls_of i (w\<lparr>unhandled := u\<rparr>) = calls_of i w"
  by (simp add: calls_of_def)

lemma decimal_5: "decimal 5 = ''5''"
  by (simp add: decimal.simps[of 5])

lemma decimal_8: "decimal 8 = ''8''"
  by (simp add: decimal.simps[of 8])

lemmas evaluation =
  executed_def state_change_def new_world_def new_EventBus_def new_WorkflowAPI_def
  execute_def registration_id_def state_change_topic_def workflow_header_def decimal_5
  configured_successStates_def configured_errorStates_def
  subscribe_def make_filter_def getActiveSubscriptions_def unsubscribe_def unsubscribeAll_def
  send_def addToHistory_def observer_next_def state_change_listener_def
  call_onSuccess_def call_onError_def call_onProgress_def cleanup_def cancel_def
  optional_member_def member_def inner_data_def error_argument_def Let_def


lemma cleanup_idempotent: "cleanup a (cleanup a w) = cleanup a w"
  by (simp add: cleanup_def split: option.splits)

lemma send_unregistered:
  assumes "i \<notin> set (getActiveSubscriptions (bus w))"
  shows "calls_of i (send t x md now w) = calls_of i w
       \<and> i \<notin> set (getActiveSubscriptions (bus (send t x md now w)))"
proof -
  let ?ev = "\<lparr>topic = t, data = x, timestamp = now, metadata = md\<rparr>"
  let ?w0 = "w\<lparr>bus := addToHistory ?ev (bus w)\<rparr>"
  have i0: "i \<notin> set (getActiveSubscriptions (bus ?w0))"
    using assms by (simp add: getActiveSubscriptions_def addToHistory_frame)
  then have "calls_of i (subject_next (subscriptions (bus w)) ?ev ?w0) = calls_of i ?w0"
    by (intro subject_next_calls_of_other) simp
  moreover have "i \<notin> set (getActiveSubscriptions (bus (subject_next (subscriptions (bus w)) ?ev ?w0)))"
    using i0 evolves_ids[OF subject_next_evolves[of ?w0 "subscriptions (bus w)" ?ev]] by auto
  ultimately show ?thesis by (simp add: send_snapshot calls_of_def)
qed

lemma send_cleared:
  "subscriptionId (apis w a) = None \<Longrightarrow> subscriptionId (apis (send t x md now w) a) = None"
  using evolves_cleared[OF subject_next_evolves] by (simp add: send_snapshot)

text \<open>The regular expression of a topic without dots.\<close>

lemma replace_stars_Cons:
  "replace_stars (c # cs) = (if c = CHR ''*'' then ''.*'' else [c]) @ replace_stars cs"
  by (simp add: replace_stars_def)

lemma replace_stars_Nil: "replace_stars [] = []"
  by (simp add: replace_stars_def)

lemma replace_stars_head:
  "replace_stars cs = d # rest \<Longrightarrow> d \<noteq> CHR ''*''"
  by (cases cs) (auto simp: replace_stars_Cons replace_stars_Nil split: if_splits)

lemma parse_atom_literal:
  "c \<in> set pattern_characters \<Longrightarrow> parse_atom c = Inr (Literal c)"
  by (auto simp: parse_atom_def pattern_characters_def)

lemma parse_regex_replace_stars:
  "set p \<subseteq> insert (CHR ''*'') (set pattern_characters)
     \<Longrightarrow> parse_regex (replace_stars p) = Inr (regex_of p)"
proof (induction p)
  case Nil
  show ?case by (simp add: replace_stars_def)
next
  case (Cons c p)
  then have IH: "parse_regex (replace_stars p) = Inr (regex_of p)" by simp
  show ?case
  proof (cases "c = CHR ''*''")
    case True
    then show ?thesis by (simp add: replace_stars_Cons IH parse_atom_def)
  next
    case False
    with Cons.prems have lit: "parse_atom c = Inr (Literal c)" by (simp add: parse_atom_literal)
    show ?thesis
    proof (cases "replace_stars p")
      case Nil
      with IH have "regex_of p = []" by simp
      with Nil False lit show ?thesis by (simp add: replace_stars_Cons)
    next
      case (Cons d rest)
      then have "d \<noteq> CHR ''*''" by (rule replace_stars_head)
      with Cons False lit IH show ?thesis by (simp add: replace_stars_Cons)
    qed
  qed
qed

lemma regex_of_split_stars:
  "regex_of p = literals (hd (split_stars p)) @ starred_segments (tl (split_stars p))
   \<and> split_stars p \<noteq> []"
proof (induction p)
  case Nil
  show ?case by (simp add: literals_def starred_segments_def)
next
  case (Cons c p)
  then obtain g gs where sp: "split_stars p = g # gs" by (cases "split_stars p") auto
  with Cons show ?case
    by (auto simp: literals_def starred_segments_def)
qed

text \<open>Matching a literal segment, a star, and anywhere.\<close>

lemma match_here_literals:
  "match_here (literals g @ r) t \<longleftrightarrow> (\<exists>rest. strip_segment g t = Some rest \<and> match_here r rest)"
proof (induction g t rule: strip_segment.induct)
  case (1 t)
  show ?case by (simp add: literals_def)
next
  case (2 g gs)
  show ?case by (simp add: literals_def)
next
  case (3 g gs c cs)
  then show ?case by (auto simp: literals_def)
qed

lemma strip_segment_suffix:
  "strip_segment g t = Some rest \<Longrightarrow> \<exists>u. t = u @ rest"
proof (induction g t rule: strip_segment.induct)
  case (1 t)
  then show ?case by simp
next
  case (2 g gs)
  then show ?case by simp
next
  case (3 g gs c cs)
  then show ?case by (auto split: if_splits intro: exI[of _ "c # u" for u])
qed

lemma match_here_star:
  "\<forall>c\<in>set t. \<not> line_terminator c \<Longrightarrow>
   match_here (Star Dot # r) t \<longleftrightarrow> (\<exists>u v. t = u @ v \<and> match_here r v)"
proof (induction t)
  case Nil
  show ?case by simp
next
  case (Cons c cs)
  then have IH: "match_here (Star Dot # r) cs \<longleftrightarrow> (\<exists>u v. cs = u @ v \<and> match_here r v)" by simp
  have "(\<exists>u v. c # cs = u @ v \<and> match_here r v) \<longleftrightarrow>
        match_here r (c # cs) \<or> (\<exists>u v. cs = u @ v \<and> match_here r v)"
    by (auto simp: Cons_eq_append_conv)
  with IH Cons.prems show ?case by simp
qed

lemma regex_test_anywhere:
  "regex_test r t \<longleftrightarrow> (\<exists>u v. t = u @ v \<and> match_here r v)"
proof (induction t)
  case Nil
  show ?case by simp
next
  case (Cons c cs)
  have "(\<exists>u v. c # cs = u @ v \<and> match_here r v) \<longleftrightarrow>
        match_here r (c # cs) \<or> (\<exists>u v. cs = u @ v \<and> match_here r v)"
    by (auto simp: Cons_eq_append_conv)
  with Cons show ?case by simp
qed

lemma segments_in_order_anywhere:
  "segments_in_order (g # gs) t \<longleftrightarrow>
     (\<exists>u v rest. t = u @ v \<and> strip_segment g v = Some rest \<and> segments_in_order gs rest)"
proof (induction t)
  case Nil
  show ?case by (auto split: option.splits)
next
  case (Cons c cs)
  have "(\<exists>u v rest. c # cs = u @ v \<and> strip_segment g v = Some rest \<and> segments_in_order gs rest) \<longleftrightarrow>
        (\<exists>rest. strip_segment g (c # cs) = Some rest \<and> segments_in_order gs rest)
        \<or> (\<exists>u v rest. cs = u @ v \<and> strip_segment g v = Some rest \<and> segments_in_order gs rest)"
    by (auto simp: Cons_eq_append_conv)
  with Cons show ?case by (auto split: option.splits)
qed

lemma match_here_starred_segments:
  "\<forall>c\<in>set t. \<not> line_terminator c \<Longrightarrow>
   match_here (starred_segments gs) t \<longleftrightarrow> segments_in_order gs t"
proof (induction gs arbitrary: t)
  case Nil
  show ?case by (simp add: starred_segments_def)
next
  case (Cons g gs)
  have step: "match_here (starred_segments gs) rest \<longleftrightarrow> segments_in_order gs rest"
    if "t = u @ v" "strip_segment g v = Some rest" for u v rest
  proof -
    from strip_segment_suffix[OF that(2)] that(1) Cons.prems
    have "\<forall>c\<in>set rest. \<not> line_terminator c" by auto
    then show ?thesis by (rule Cons.IH)
  qed
  have "match_here (starred_segments (g # gs)) t \<longleftrightarrow>
        (\<exists>u v. t = u @ v \<and> match_here (literals g @ starred_segments gs) v)"
    using match_here_star[OF Cons.prems] by (simp add: starred_segments_def)
  also have "\<dots> \<longleftrightarrow> (\<exists>u v rest. t = u @ v \<and> strip_segment g v = Some rest
                        \<and> match_here (starred_segments gs) rest)"
    by (simp add: match_here_literals)
  also have "\<dots> \<longleftrightarrow> (\<exists>u v rest. t = u @ v \<and> strip_segment g v = Some rest
                        \<and> segments_in_order gs rest)"
    using step by blast
  finally show ?case by (simp add: segments_in_order_anywhere)
qed

section \<open>Unsubscribing leaves the history alone\<close>

text \<open>
  Claim C10. \<open>unsubscribe(id)\<close>, for an id that is registered or not, and
  \<open>unsubscribeAll()\<close> change the list of subscriptions and nothing else: the same
  bus with another registry comes back, an absent id gives the bus back as it was,
  and \<open>getHistory\<close>, with or without a topic, returns what it returned before.
\<close>

theorem unsubscribe_changes_only_the_registry:
  "unsubscribe i b = b\<lparr>subscriptions := filter (\<lambda>s. sub_id s \<noteq> i) (subscriptions b)\<rparr>
   \<and> (i \<notin> set (getActiveSubscriptions b) \<longrightarrow> unsubscribe i b = b)
   \<and> unsubscribeAll b = b\<lparr>subscriptions := []\<rparr>
   \<and> getHistory t (unsubscribe i b) = getHistory t b
   \<and> getHistory t (unsubscribeAll b) = getHistory t b
   \<and> step (Unsubscribe i) w = w\<lparr>bus := unsubscribe i (bus w)\<rparr>
   \<and> step UnsubscribeAll w = w\<lparr>bus := unsubscribeAll (bus w)\<rparr>"
proof -
  have same: "filter (\<lambda>s. sub_id s \<noteq> i) (subscriptions b) = subscriptions b"
    if "i \<notin> set (getActiveSubscriptions b)"
    using that by (auto simp: filter_id_conv getActiveSubscriptions_def)
  have "unsubscribe i b = b\<lparr>subscriptions := filter (\<lambda>s. sub_id s \<noteq> i) (subscriptions b)\<rparr>"
    by (cases "i \<in> set (getActiveSubscriptions b)") (simp_all add: unsubscribe_def same)
  moreover have "getHistory t (unsubscribe i b) = getHistory t b"
    by (simp add: getHistory_def unsubscribe_frame split: option.splits)
  moreover have "getHistory t (unsubscribeAll b) = getHistory t b"
    by (simp add: getHistory_def unsubscribeAll_frame split: option.splits)
  ultimately show ?thesis
    by (simp add: unsubscribe_def unsubscribeAll_def)
qed

theorem unsubscribe_changes_only_the_registry_witness:
  "unsubscribe ''ghost'' (new_EventBus None) = new_EventBus None
   \<and> getHistory None (unsubscribe ''ghost'' (new_EventBus None)) = []"
  using unsubscribe_changes_only_the_registry
    [of "''ghost''" "new_EventBus None" None "new_world None"]
  by (simp add: getActiveSubscriptions_def new_EventBus_def getHistory_def)

section \<open>One subscription per id\<close>

text \<open>
  Claim C3. A \<open>subscribe\<close> with an id that is already registered does not throw and
  returns the bus as it was: the registered subscription keeps its topic, listener,
  closure and custom data, and the new one is dropped. In every state a program
  reaches from a new bus, no id is registered twice.
\<close>

theorem duplicate_subscription_id_is_rejected:
  "(i \<in> set (getActiveSubscriptions b) \<longrightarrow> subscribe i t l c d b = Inr b)
   \<and> (i \<in> set (getActiveSubscriptions (bus w)) \<longrightarrow> step (Subscribe i t l c d) w = w)
   \<and> distinct (getActiveSubscriptions (bus (run cs (new_world options))))"
proof -
  have "well_formed (run cs (new_world options))"
    using run_well_formed[of cs "new_world options"] new_world_well_formed[of options] by simp
  then show ?thesis by (simp add: subscribe_def well_formed_def)
qed

theorem duplicate_subscription_id_is_rejected_witness:
  "getActiveSubscriptions (bus (run [Subscribe ''a'' ''T'' (UserListener (\<lambda>i t x c d. ([], Normal))) JNull JNull] (new_world None))) = [''a'']
   \<and> step (Subscribe ''a'' ''U'' (UserListener (\<lambda>i t x c d. ([], Throw TypeError))) (JNum 1) JNull)
        (run [Subscribe ''a'' ''T'' (UserListener (\<lambda>i t x c d. ([], Normal))) JNull JNull] (new_world None))
      = run [Subscribe ''a'' ''T'' (UserListener (\<lambda>i t x c d. ([], Normal))) JNull JNull] (new_world None)"
  using duplicate_subscription_id_is_rejected
    [of "''a''" "bus (run [Subscribe ''a'' ''T'' (UserListener (\<lambda>i t x c d. ([], Normal))) JNull JNull] (new_world None))"
        "''U''" "UserListener (\<lambda>i t x c d. ([], Throw TypeError))" "JNum 1" JNull
        "run [Subscribe ''a'' ''T'' (UserListener (\<lambda>i t x c d. ([], Normal))) JNull JNull] (new_world None)"
        "[]" None]
  by (simp add: subscribe_def make_filter_def getActiveSubscriptions_def new_world_def new_EventBus_def)

section \<open>The bounded history\<close>

text \<open>
  Claim C4, for a bound \<open>N\<close> of at least 1. A bus built with \<open>maxHistorySize = N\<close> keeps
  that bound; whatever a program does, its history never holds more than \<open>N\<close>
  events; and after any further publishes the history is the last \<open>N\<close> of the events
  it held and the events published, in the order of publication: at capacity each
  publish drops the oldest event.
\<close>

theorem history_keeps_the_last_events:
  assumes "0 < N"
  shows "maxHistorySize (bus (run cs (new_world (Some \<lparr>opt_debug = dbg, opt_maxHistorySize = Some N\<rparr>)))) = N
   \<and> length (eventHistory (bus (run cs (new_world (Some \<lparr>opt_debug = dbg, opt_maxHistorySize = Some N\<rparr>))))) \<le> N
   \<and> eventHistory (bus (run (map publish es)
        (run cs (new_world (Some \<lparr>opt_debug = dbg, opt_maxHistorySize = Some N\<rparr>)))))
      = keep_last N
          (eventHistory (bus (run cs (new_world (Some \<lparr>opt_debug = dbg, opt_maxHistorySize = Some N\<rparr>))))
           @ map event_of es)"
proof -
  let ?w0 = "new_world (Some \<lparr>opt_debug = dbg, opt_maxHistorySize = Some N\<rparr>)"
  have m0: "maxHistorySize (bus ?w0) = N"
    using assms by (simp add: new_world_def new_EventBus_def)
  have wf: "well_formed (run cs ?w0)" and m: "maxHistorySize (bus (run cs ?w0)) = N"
    using run_well_formed[of cs ?w0] new_world_well_formed[of "Some \<lparr>opt_debug = dbg, opt_maxHistorySize = Some N\<rparr>"] m0
    by simp_all
  from wf m have "length (eventHistory (bus (run cs ?w0))) \<le> N"
    by (simp add: well_formed_def)
  moreover from run_publish_history[OF wf, of es] m
  have "eventHistory (bus (run (map publish es) (run cs ?w0)))
      = keep_last N (eventHistory (bus (run cs ?w0)) @ map event_of es)"
    by simp
  ultimately show ?thesis using m by simp
qed

theorem history_keeps_the_last_events_witness:
  "map timestamp (eventHistory (bus (run (map publish
      [(''T'', JNull, JUndefined, 1), (''T'', JNull, JUndefined, 2), (''T'', JNull, JUndefined, 3),
       (''T'', JNull, JUndefined, 4), (''T'', JNull, JUndefined, 5), (''T'', JNull, JUndefined, 6),
       (''T'', JNull, JUndefined, 7)])
      (run [] (new_world (Some \<lparr>opt_debug = None, opt_maxHistorySize = Some 2\<rparr>)))))) = [6, 7]"
  using history_keeps_the_last_events[of 2 "[]" None
      "[(''T'', JNull, JUndefined, 1), (''T'', JNull, JUndefined, 2), (''T'', JNull, JUndefined, 3),
       (''T'', JNull, JUndefined, 4), (''T'', JNull, JUndefined, 5), (''T'', JNull, JUndefined, 6),
       (''T'', JNull, JUndefined, 7)]"]
  by (simp add: keep_last_def event_of_def new_world_def new_EventBus_def)

text \<open>
  With \<open>maxHistorySize = 0\<close> the constructor takes the default: the bound is 100, and
  one publish leaves one event in a history that was to hold none.
\<close>

theorem history_bound_zero_counterexample:
  "maxHistorySize (bus (new_world (Some \<lparr>opt_debug = None, opt_maxHistorySize = Some 0\<rparr>))) = 100
   \<and> length (eventHistory (bus (run [Send ''T'' JNull JUndefined 1]
        (new_world (Some \<lparr>opt_debug = None, opt_maxHistorySize = Some 0\<rparr>))))) = 1"
  by (simp add: new_world_def new_EventBus_def send_def addToHistory_def)

section \<open>Delivery in registration order\<close>

text \<open>
  Claim C1, as the code has it. \<open>send\<close> builds the event, adds it to the history and
  then hands it to the subscriptions registered at that moment, in the order of
  the registry, which is the order of registration (\<open>subscribe\<close> adds a new
  subscription last). The listeners called are, in that order, the subscriptions
  whose filter passes the topic, except a set \<open>K\<close> of them; a subscription of \<open>K\<close> was
  registered when \<open>send\<close> was called and is not registered after it: it was
  unsubscribed during the delivery. So every subscription that passes the topic and
  is still registered after the delivery was called, once; and when no listener
  unsubscribes, all of them were.
\<close>

theorem send_delivers_in_registration_order:
  assumes "distinct (getActiveSubscriptions (bus w))"
  shows "send t x md now w =
           subject_next (subscriptions (bus w)) \<lparr>topic = t, data = x, timestamp = now, metadata = md\<rparr>
             (w\<lparr>bus := addToHistory \<lparr>topic = t, data = x, timestamp = now, metadata = md\<rparr> (bus w)\<rparr>)
   \<and> eventHistory (bus (send t x md now w)) =
           eventHistory (addToHistory \<lparr>topic = t, data = x, timestamp = now, metadata = md\<rparr> (bus w))
   \<and> (\<exists>K. K \<subseteq> set (subscriptions (bus w))
          \<and> (\<forall>s\<in>K. sub_id s \<notin> set (getActiveSubscriptions (bus (send t x md now w))))
          \<and> listener_calls (send t x md now w) =
              listener_calls w @
              map (listener_call \<lparr>topic = t, data = x, timestamp = now, metadata = md\<rparr>)
                (filter (\<lambda>s. passes (sub_filter s) t \<and> s \<notin> K) (subscriptions (bus w))))
   \<and> (i \<notin> set (getActiveSubscriptions b) \<and> make_filter p = Inr f \<longrightarrow>
        subscribe i p l c d b =
          Inr (b\<lparr>subscriptions := subscriptions b @
                 [\<lparr>sub_id = i, sub_topic = p, sub_filter = f, sub_listener = l,
                   closure = c, customData = d\<rparr>]\<rparr>))"
proof -
  let ?ev = "\<lparr>topic = t, data = x, timestamp = now, metadata = md\<rparr>"
  let ?w0 = "w\<lparr>bus := addToHistory ?ev (bus w)\<rparr>"
  have d: "distinct (map sub_id (subscriptions (bus w)))"
    using assms by (simp add: getActiveSubscriptions_def)
  from subject_next_listener_calls[OF d, of ?ev ?w0] obtain K where
    "K \<subseteq> set (subscriptions (bus w))"
    "\<forall>s\<in>K. sub_id s \<notin> set (getActiveSubscriptions (bus (send t x md now w)))"
    "listener_calls (send t x md now w) =
       listener_calls ?w0 @
       map (listener_call ?ev) (filter (\<lambda>s. passes (sub_filter s) t \<and> s \<notin> K) (subscriptions (bus w)))"
    by (auto simp: send_snapshot)
  then have "\<exists>K. K \<subseteq> set (subscriptions (bus w))
          \<and> (\<forall>s\<in>K. sub_id s \<notin> set (getActiveSubscriptions (bus (send t x md now w))))
          \<and> listener_calls (send t x md now w) =
              listener_calls w @
              map (listener_call ?ev) (filter (\<lambda>s. passes (sub_filter s) t \<and> s \<notin> K) (subscriptions (bus w)))"
    by (auto simp: listener_calls_def)
  moreover have "eventHistory (bus (send t x md now w)) = eventHistory (addToHistory ?ev (bus w))"
    by (simp add: send_bus)
  moreover have "send t x md now w = subject_next (subscriptions (bus w)) ?ev ?w0"
    by (rule send_snapshot)
  ultimately show ?thesis by (simp add: subscribe_def)
qed

theorem send_delivers_in_registration_order_witness:
  "distinct (getActiveSubscriptions (bus (two_listeners quiet quiet)))
   \<and> getActiveSubscriptions (bus (two_listeners quiet quiet)) = [''L1'', ''L2'']
   \<and> listener_calls (send ''A.B'' (JNum 7) JUndefined 0 (two_listeners quiet quiet)) =
       [ListenerCall ''L1'' ''A.B'' (JNum 7) JUndefined JUndefined,
        ListenerCall ''L2'' ''A.B'' (JNum 7) JUndefined JUndefined]
   \<and> map topic (eventHistory (bus (send ''A.B'' (JNum 7) JUndefined 0 (two_listeners quiet quiet)))) = [''A.B'']"
  using send_delivers_in_registration_order[of "two_listeners quiet quiet" "''A.B''" "JNum 7" JUndefined 0]
  by (simp add: two_listeners_def quiet_def subscribe_def make_filter_def getActiveSubscriptions_def
      new_world_def new_EventBus_def send_def addToHistory_def observer_next_def listener_calls_def)

text \<open>
  \<open>L1\<close> and \<open>L2\<close> are subscribed to the published topic when \<open>send\<close> is called, and the
  listener of \<open>L1\<close> unsubscribes \<open>L2\<close>: the listener of \<open>L2\<close> is not called.
\<close>

theorem unsubscribed_during_delivery_counterexample:
  "getActiveSubscriptions (bus (two_listeners (UserListener (\<lambda>i t x c d. ([CallUnsubscribe ''L2''], Normal))) quiet))
     = [''L1'', ''L2'']
   \<and> list_all (\<lambda>s. passes (sub_filter s) ''A.B'')
        (subscriptions (bus (two_listeners (UserListener (\<lambda>i t x c d. ([CallUnsubscribe ''L2''], Normal))) quiet)))
   \<and> calls (send ''A.B'' (JNum 7) JUndefined 0
        (two_listeners (UserListener (\<lambda>i t x c d. ([CallUnsubscribe ''L2''], Normal))) quiet)) =
       [ListenerCall ''L1'' ''A.B'' (JNum 7) JUndefined JUndefined]"
  by (simp add: two_listeners_def quiet_def subscribe_def make_filter_def getActiveSubscriptions_def
      new_world_def new_EventBus_def send_def addToHistory_def observer_next_def unsubscribe_def)

section \<open>A listener that throws\<close>

text \<open>
  Claim C5. Two subscriptions pass the published topic and neither is unsubscribed
  during the delivery; the listener of the first throws \<open>e\<close>. Then \<open>send\<close> returns
  (it is a total function: nothing a listener throws reaches the publisher), both
  listeners were called with the event, and \<open>e\<close> is among the errors left for the
  timer to report. The same holds wherever the two stand in the registry.
\<close>

theorem listener_fault_is_isolated:
  assumes "s1 \<in> set (subscriptions (bus w))" and "s2 \<in> set (subscriptions (bus w))"
    and "passes (sub_filter s1) t" and "passes (sub_filter s2) t"
    and "throws_on s1 \<lparr>topic = t, data = x, timestamp = now, metadata = md\<rparr> e"
    and "sub_id s1 \<in> set (getActiveSubscriptions (bus (send t x md now w)))"
    and "sub_id s2 \<in> set (getActiveSubscriptions (bus (send t x md now w)))"
  shows "ListenerCall (sub_id s1) t x (closure s1) (customData s1) \<in> set (calls_since w (send t x md now w))
       \<and> ListenerCall (sub_id s2) t x (closure s2) (customData s2) \<in> set (calls_since w (send t x md now w))
       \<and> e \<in> set (unhandled_since w (send t x md now w))"
proof -
  let ?ev = "\<lparr>topic = t, data = x, timestamp = now, metadata = md\<rparr>"
  let ?w0 = "w\<lparr>bus := addToHistory ?ev (bus w)\<rparr>"
  have since: "calls_since w v = calls_since ?w0 v" "unhandled_since w v = unhandled_since ?w0 v" for v
    by (simp_all add: calls_since_def unhandled_since_def)
  from subject_next_survivor[of s1 "subscriptions (bus w)" ?ev ?w0] assms
  have 1: "listener_call ?ev s1 \<in> set (calls_since w (send t x md now w))"
    and 3: "e \<in> set (unhandled_since w (send t x md now w))"
    by (auto simp: send_snapshot since)
  from subject_next_survivor[of s2 "subscriptions (bus w)" ?ev ?w0] assms
  have 2: "listener_call ?ev s2 \<in> set (calls_since w (send t x md now w))"
    by (auto simp: send_snapshot since)
  from 1 2 3 show ?thesis by (simp add: listener_call_def)
qed

theorem listener_fault_is_isolated_witness:
  "calls (send ''A.B'' (JNum 7) JUndefined 0
      (two_listeners (UserListener (\<lambda>i t x c d. ([], Throw (Thrown (JStr ''boom''))))) quiet)) =
     [ListenerCall ''L1'' ''A.B'' (JNum 7) JUndefined JUndefined,
      ListenerCall ''L2'' ''A.B'' (JNum 7) JUndefined JUndefined]
   \<and> unhandled (send ''A.B'' (JNum 7) JUndefined 0
      (two_listeners (UserListener (\<lambda>i t x c d. ([], Throw (Thrown (JStr ''boom''))))) quiet)) =
     [Thrown (JStr ''boom'')]
   \<and> getActiveSubscriptions (bus (send ''A.B'' (JNum 7) JUndefined 0
      (two_listeners (UserListener (\<lambda>i t x c d. ([], Throw (Thrown (JStr ''boom''))))) quiet))) =
     [''L1'', ''L2'']"
  using listener_fault_is_isolated
    [where ?s1.0 = "\<lparr>sub_id = ''L1'', sub_topic = ''A.B'', sub_filter = Exact ''A.B'',
          sub_listener = UserListener (\<lambda>i t x c d. ([], Throw (Thrown (JStr ''boom'')))),
          closure = JUndefined, customData = JUndefined\<rparr>"
      and w = "two_listeners (UserListener (\<lambda>i t x c d. ([], Throw (Thrown (JStr ''boom''))))) quiet"
      and ?s2.0 = "\<lparr>sub_id = ''L2'', sub_topic = ''A.B'', sub_filter = Exact ''A.B'',
          sub_listener = quiet, closure = JUndefined, customData = JUndefined\<rparr>"
      and t = "''A.B''" and x = "JNum 7" and e = "Thrown (JStr ''boom'')" and md = JUndefined and now = 0]
  by (simp add: throws_on_def two_listeners_def quiet_def subscribe_def make_filter_def
      getActiveSubscriptions_def new_world_def new_EventBus_def send_def addToHistory_def
      observer_next_def)

section \<open>Exact topics\<close>

text \<open>
  Claim C8. A topic \<open>p\<close> without \<open>*\<close> gets the filter that passes a published topic
  exactly when it is \<open>p\<close>, character for character. So, for a subscription
  registered under a new id \<open>i\<close> with topic \<open>p\<close>: publishing another topic records no
  call under \<open>i\<close>, and publishing \<open>p\<close> with data \<open>x\<close> calls its listener once, with
  \<open>(i, p, x, closure, customData)\<close>, provided no listener called earlier in that
  delivery unsubscribes \<open>i\<close>.
\<close>

theorem exact_topic_matches_only_itself:
  assumes "CHR ''*'' \<notin> set p"
  shows "make_filter p = Inr (Exact p)
   \<and> (passes (Exact p) t \<longleftrightarrow> t = p)
   \<and> (distinct (getActiveSubscriptions (bus w)) \<and> i \<notin> set (getActiveSubscriptions (bus w)) \<longrightarrow>
        (t \<noteq> p \<longrightarrow> calls_of i (send t x md now (step (Subscribe i p l c d) w)) = calls_of i w)
      \<and> (undisturbed i \<lparr>topic = p, data = x, timestamp = now, metadata = md\<rparr>
             (step (Subscribe i p l c d) w) \<longrightarrow>
           filter is_listener_call (calls_of i (send p x md now (step (Subscribe i p l c d) w))) =
             filter is_listener_call (calls_of i w) @ [ListenerCall i p x c d]))"
proof -
  have mf: "make_filter p = Inr (Exact p)" using assms by (simp add: make_filter_def)
  define s where "s = \<lparr>sub_id = i, sub_topic = p, sub_filter = Exact p, sub_listener = l,
              closure = c, customData = d\<rparr>"
  define w1 where "w1 = step (Subscribe i p l c d) w"
  have delivery:
    "(t \<noteq> p \<longrightarrow> calls_of i (send t x md now w1) = calls_of i w)
      \<and> (undisturbed i \<lparr>topic = p, data = x, timestamp = now, metadata = md\<rparr> w1 \<longrightarrow>
           filter is_listener_call (calls_of i (send p x md now w1)) =
             filter is_listener_call (calls_of i w) @ [ListenerCall i p x c d])"
    if d: "distinct (getActiveSubscriptions (bus w))" and fresh: "i \<notin> set (getActiveSubscriptions (bus w))"
  proof -
    have w1: "w1 = w\<lparr>bus := (bus w)\<lparr>subscriptions := subscriptions (bus w) @ [s]\<rparr>\<rparr>"
      unfolding w1_def s_def using step_subscribe_fresh[OF fresh mf] by simp
    have subs1: "subscriptions (bus w1) = subscriptions (bus w) @ [s]" by (simp add: w1)
    have d1: "distinct (getActiveSubscriptions (bus w1))"
      using d fresh by (simp add: subs1 getActiveSubscriptions_def s_def)
    have c1: "calls_of i w1 = calls_of i w" by (simp add: w1 calls_of_def)
    have never: "calls_of i (send t x md now w1) = calls_of i w" if "t \<noteq> p"
    proof -
      let ?ev = "\<lparr>topic = t, data = x, timestamp = now, metadata = md\<rparr>"
      have "\<forall>s'\<in>set (subscriptions (bus w1)). sub_id s' \<noteq> i \<or> \<not> passes (sub_filter s') (topic ?ev)"
        using fresh that by (auto simp: subs1 getActiveSubscriptions_def s_def)
      from subject_next_calls_of_unreached[OF this] c1 show ?thesis
        by (simp add: send_snapshot calls_of_def)
    qed
    have once: "filter is_listener_call (calls_of i (send p x md now w1)) =
             filter is_listener_call (calls_of i w) @ [ListenerCall i p x c d]"
      if u: "undisturbed i \<lparr>topic = p, data = x, timestamp = now, metadata = md\<rparr> w1"
    proof -
      let ?ev = "\<lparr>topic = p, data = x, timestamp = now, metadata = md\<rparr>"
      have s1: "s \<in> set (subscriptions (bus w1))" by (simp add: subs1)
      have i: "sub_id s = i" by (simp add: s_def)
      from send_reaches[OF d1 s1, of p x now md] u i obtain post v where
        v: "send p x md now w1 = subject_next post ?ev (observer_next s ?ev v)"
          "kept i w1 v" "calls_of i v = calls_of i w1"
          "\<forall>s'\<in>set post. sub_id s' \<noteq> i \<and> (passes (sub_filter s') p \<longrightarrow> leaves_subscribed i s' ?ev v)"
        by auto
      have "i \<in> set (getActiveSubscriptions (bus w1))"
        by (simp add: subs1 getActiveSubscriptions_def s_def)
      with v(2) have "receives s ?ev v" by (simp add: receives_def kept_def s_def)
      from observer_next_own_calls[OF this] v(3) c1 i
      have "filter is_listener_call (calls_of i (observer_next s ?ev v)) =
              filter is_listener_call (calls_of i w) @ [ListenerCall i p x c d]"
        by (simp add: listener_call_def s_def)
      moreover have "calls_of i (subject_next post ?ev (observer_next s ?ev v)) =
          calls_of i (observer_next s ?ev v)"
        using v(4) by (intro subject_next_calls_of_unreached) auto
      ultimately show ?thesis by (simp add: v(1))
    qed
    from never once show ?thesis by blast
  qed
  from mf delivery show ?thesis unfolding w1_def by simp
qed

theorem exact_topic_matches_only_itself_witness:
  "CHR ''*'' \<notin> set ''A.B''
   \<and> make_filter ''A.B'' = Inr (Exact ''A.B'')
   \<and> calls (send ''A.B'' (JNum 7) JUndefined 0
        (step (Subscribe ''id'' ''A.B'' quiet (JStr ''cl'') JNull) (new_world None))) =
       [ListenerCall ''id'' ''A.B'' (JNum 7) (JStr ''cl'') JNull]
   \<and> calls (send ''A.C'' (JNum 7) JUndefined 0
        (step (Subscribe ''id'' ''A.B'' quiet (JStr ''cl'') JNull) (new_world None))) = []"
  using exact_topic_matches_only_itself
    [of "''A.B''" "''A.C''" "new_world None" "''id''" "JNum 7" JUndefined 0 quiet "JStr ''cl''" JNull]
  by (simp add: make_filter_def quiet_def subscribe_def getActiveSubscriptions_def
      new_world_def new_EventBus_def send_def addToHistory_def observer_next_def)

section \<open>Wildcard topics\<close>

text \<open>
  Claim C2 says that a topic with \<open>*\<close> matches the published topics in which its
  literal segments appear in order. The code puts the topic into a regular
  expression without escaping it, so a \<open>.\<close> of the topic matches any character: the
  subscription on \<open>USER.*\<close> is called for the topic \<open>USERS\<close>, in which the segment
  \<open>USER.\<close> does not appear.
\<close>

theorem wildcard_dot_matches_any_character:
  "make_filter ''USER.*'' =
     Inr (Wildcard [Once (Literal CHR ''U''), Once (Literal CHR ''S''), Once (Literal CHR ''E''),
                    Once (Literal CHR ''R''), Once Dot, Star Dot])
   \<and> passes (Wildcard [Once (Literal CHR ''U''), Once (Literal CHR ''S''), Once (Literal CHR ''E''),
                    Once (Literal CHR ''R''), Once Dot, Star Dot]) ''USERS''
   \<and> \<not> spec_wildcard_matches ''USER.*'' ''USERS''
   \<and> calls (send ''USERS'' (JNum 7) JUndefined 0
        (step (Subscribe ''id'' ''USER.*'' quiet JUndefined JUndefined) (new_world None))) =
       [ListenerCall ''id'' ''USERS'' (JNum 7) JUndefined JUndefined]"
  by (simp add: make_filter_def replace_stars_def parse_atom_def pattern_characters_def
      canonicalize_def line_terminator_def spec_wildcard_matches_def
      quiet_def subscribe_def getActiveSubscriptions_def
      new_world_def new_EventBus_def send_def addToHistory_def observer_next_def)

text \<open>
  Nor does \<open>*\<close> stand for any characters: \<open>.\<close> matches no line terminator, so \<open>A*B\<close>
  does not match \<open>A\<close>, line feed, \<open>B\<close>, where both segments appear in order.
\<close>

theorem wildcard_star_stops_at_line_end:
  "make_filter ''A*B'' = Inr (Wildcard [Once (Literal CHR ''A''), Star Dot, Once (Literal CHR ''B'')])
   \<and> \<not> passes (Wildcard [Once (Literal CHR ''A''), Star Dot, Once (Literal CHR ''B'')]) [CHR ''A'', CHR 0x0A, CHR ''B'']
   \<and> spec_wildcard_matches ''A*B'' [CHR ''A'', CHR 0x0A, CHR ''B'']"
  by (simp add: make_filter_def replace_stars_def parse_atom_def pattern_characters_def
      canonicalize_def line_terminator_def spec_wildcard_matches_def)

text \<open>
  Where the topic has no \<open>.\<close> and no character outside \<open>pattern_characters\<close>, and the
  published topic has no line terminator, the filter does what the claim says.
\<close>

theorem wildcard_without_dot_agrees:
  assumes "CHR ''*'' \<in> set p"
    and "set p \<subseteq> insert (CHR ''*'') (set pattern_characters)"
    and "\<forall>c\<in>set t. \<not> line_terminator c"
  shows "make_filter p = Inr (Wildcard (regex_of p))
       \<and> (passes (Wildcard (regex_of p)) t \<longleftrightarrow> spec_wildcard_matches p t)"
proof -
  obtain g gs where sp: "split_stars p = g # gs"
    using regex_of_split_stars[of p] by (cases "split_stars p") auto
  with regex_of_split_stars[of p] have r: "regex_of p = literals g @ starred_segments gs" by simp
  have "regex_test (regex_of p) t \<longleftrightarrow>
        (\<exists>u v rest. t = u @ v \<and> strip_segment g v = Some rest \<and> match_here (starred_segments gs) rest)"
    by (simp add: regex_test_anywhere r match_here_literals)
  also have "\<dots> \<longleftrightarrow> (\<exists>u v rest. t = u @ v \<and> strip_segment g v = Some rest \<and> segments_in_order gs rest)"
  proof -
    have "match_here (starred_segments gs) rest \<longleftrightarrow> segments_in_order gs rest"
      if "t = u @ v" "strip_segment g v = Some rest" for u v rest
    proof -
      from strip_segment_suffix[OF that(2)] that(1) assms(3)
      have "\<forall>c\<in>set rest. \<not> line_terminator c" by auto
      then show ?thesis by (rule match_here_starred_segments)
    qed
    then show ?thesis by blast
  qed
  finally have "regex_test (regex_of p) t \<longleftrightarrow> spec_wildcard_matches p t"
    by (simp add: spec_wildcard_matches_def sp segments_in_order_anywhere)
  moreover have "make_filter p = Inr (Wildcard (regex_of p))"
    using assms(1,2) by (simp add: make_filter_def parse_regex_replace_stars)
  ultimately show ?thesis by simp
qed

section \<open>Terminal states of a workflow\<close>




section \<open>Progress\<close>



section \<open>Cancelling\<close>

text \<open>
  Claim C9 says that \<open>cancel()\<close> cleans up the subscription of every execution, and
  that a terminal state after it does nothing. A \<open>WorkflowAPI\<close> object holds one id:
  \<open>execute\<close> overwrites \<open>this.subscriptionId\<close> and leaves the subscription of the
  execution before registered. So after two calls of \<open>execute\<close> on one object,
  \<open>cancel()\<close> unsubscribes the second subscription only. The first one stays
  registered; a \<open>success\<close> state published after the \<open>cancel()\<close> calls its listener
  and its success callback; and as the object holds no id by then, the cleanup of
  that listener unsubscribes nothing, so the subscription outlives its terminal
  state too.
\<close>

theorem cancel_misses_superseded_execution:
  "getActiveSubscriptions (bus executed_twice) = [''W.5.r4nd0m'', ''W.8.0th3r1d'']
   \<and> subscriptionId (apis executed_twice 0) = Some ''W.8.0th3r1d''
   \<and> calls executed_twice = []
   \<and> getActiveSubscriptions (bus (cancel 0 executed_twice)) = [''W.5.r4nd0m'']
   \<and> subscriptionId (apis (cancel 0 executed_twice) 0) = None
   \<and> calls (send ''WF.W.STATE.CHANGE'' (state_change ''success'' (JNum 3)) JUndefined 11
        (cancel 0 executed_twice))
      = [ListenerCall ''W.5.r4nd0m'' ''WF.W.STATE.CHANGE'' (state_change ''success'' (JNum 3)) JUndefined JUndefined,
         SuccessCall ''W.5.r4nd0m'' (JNum 3)]
   \<and> getActiveSubscriptions (bus (send ''WF.W.STATE.CHANGE'' (state_change ''success'' (JNum 3)) JUndefined 11
        (cancel 0 executed_twice))) = [''W.5.r4nd0m'']"
  by (simp add: executed_twice_def decimal_8 evaluation)

text \<open>
  For the execution whose id the object holds, \<open>cancel()\<close> does what the claim
  says. It records no call of a listener or callback and leaves the history as it
  is; it removes the subscription whose id the object holds and clears that id. A
  second \<open>cancel()\<close> changes nothing, nor does a \<open>cancel()\<close> on an object that holds
  no id. After the cleanup a publish records no call under the removed id,
  whatever its topic and data, and a \<open>cancel()\<close> after it changes nothing. The last
  part holds for every id that is not registered, so also after the cleanup that
  follows a terminal state.
\<close>

theorem cancel_cleans_up_once:
  "calls (cancel a w) = calls w
   \<and> unhandled (cancel a w) = unhandled w
   \<and> eventHistory (bus (cancel a w)) = eventHistory (bus w)
   \<and> cancel a (cancel a w) = cancel a w
   \<and> (subscriptionId (apis w a) = None \<longrightarrow> cancel a w = w)
   \<and> (subscriptionId (apis w a) = Some i \<and> i \<noteq> [] \<longrightarrow>
        i \<notin> set (getActiveSubscriptions (bus (cancel a w)))
      \<and> subscriptionId (apis (cancel a w) a) = None
      \<and> calls_of i (send t x md now (cancel a w)) = calls_of i w
      \<and> i \<notin> set (getActiveSubscriptions (bus (send t x md now (cancel a w))))
      \<and> cancel a (send t x md now (cancel a w)) = send t x md now (cancel a w))
   \<and> (i \<notin> set (getActiveSubscriptions (bus w)) \<longrightarrow>
        calls_of i (send t x md now w) = calls_of i w
      \<and> i \<notin> set (getActiveSubscriptions (bus (send t x md now w))))"
proof -
  have frame: "calls (cancel a w) = calls w \<and> unhandled (cancel a w) = unhandled w
      \<and> eventHistory (bus (cancel a w)) = eventHistory (bus w)"
    using cleanup_bus[of a w] by (simp add: cancel_def cleanup_calls)
  have idem: "cancel a (cancel a w) = cancel a w"
    by (simp add: cancel_def cleanup_idempotent)
  have none: "cancel a v = v" if "subscriptionId (apis v a) = None" for v
    using that by (simp add: cancel_def cleanup_def)
  have tracked: "i \<notin> set (getActiveSubscriptions (bus (cancel a w)))
      \<and> subscriptionId (apis (cancel a w) a) = None
      \<and> calls_of i (send t x md now (cancel a w)) = calls_of i w
      \<and> i \<notin> set (getActiveSubscriptions (bus (send t x md now (cancel a w))))
      \<and> cancel a (send t x md now (cancel a w)) = send t x md now (cancel a w)"
    if "subscriptionId (apis w a) = Some i" "i \<noteq> []"
  proof -
    from cleanup_tracked[OF that] have g: "i \<notin> set (getActiveSubscriptions (bus (cancel a w)))"
      "subscriptionId (apis (cancel a w) a) = None"
      by (simp_all add: cancel_def)
    from send_unregistered[OF g(1), of t x md now] frame
    have "calls_of i (send t x md now (cancel a w)) = calls_of i w"
      "i \<notin> set (getActiveSubscriptions (bus (send t x md now (cancel a w))))"
      by (simp_all add: calls_of_def)
    moreover from send_cleared[OF g(2)] have "cancel a (send t x md now (cancel a w)) = send t x md now (cancel a w)"
      by (rule none)
    ultimately show ?thesis using g by simp
  qed
  from frame idem none tracked send_unregistered show ?thesis by blast
qed

theorem cancel_cleans_up_once_witness:
  "subscriptionId (apis (executed \<lparr>onSuccess = Some (\<lambda>x. Normal), onError = None, onProgress = None\<rparr> None) 0)
     = Some ''W.5.r4nd0m''
   \<and> getActiveSubscriptions (bus (cancel 0
        (executed \<lparr>onSuccess = Some (\<lambda>x. Normal), onError = None, onProgress = None\<rparr> None))) = []
   \<and> calls (send ''WF.W.STATE.CHANGE'' (state_change ''success'' JNull) JUndefined 8 (cancel 0
        (executed \<lparr>onSuccess = Some (\<lambda>x. Normal), onError = None, onProgress = None\<rparr> None))) = []"
  using cancel_cleans_up_once
    [where w = "executed \<lparr>onSuccess = Some (\<lambda>x. Normal), onError = None, onProgress = None\<rparr> None"
       and a = 0 and i = "''W.5.r4nd0m''"
       and t = "''WF.W.STATE.CHANGE''" and x = "state_change ''success'' JNull"
       and now = 8 and md = JUndefined]
  by (simp add: evaluation)

end
